theory Spec2Isabelle
  imports Main "HOL-Library.Word"
begin

section \<open>JavaScript strings\<close>

text \<open>
  A JavaScript string is a sequence of UTF-16 code units; \<open>length\<close>, \<open>substring\<close>,
  \<open>lastIndexOf\<close> and regular expressions without the \<open>u\<close> flag all work on code units.
  A code unit is a 16-bit word. The literals of the source are ASCII, so \<open>js\<close> maps each
  character of a HOL string to the code unit of the same number.
\<close>

type_synonym jschar = "16 word"
type_synonym jsstring = "jschar list"

definition js :: "string \<Rightarrow> jsstring" where
  "js s = map of_char s"

text \<open>
  The class \<open>\s\<close> of an ECMAScript regular expression: WhiteSpace and LineTerminator.
  \<open>String.prototype.trim\<close> strips the same set.
\<close>

definition is_space :: "jschar \<Rightarrow> bool" where
  "is_space c \<longleftrightarrow>
     c \<in> set [0x09, 0x0A, 0x0B, 0x0C, 0x0D, 0x20, 0xA0, 0x1680,
               0x2028, 0x2029, 0x202F, 0x205F, 0x3000, 0xFEFF]
     \<or> (0x2000 \<le> c \<and> c \<le> 0x200A)"

text \<open>The class \<open>\w\<close>: ASCII letters, digits and the underscore.\<close>

definition is_word :: "jschar \<Rightarrow> bool" where
  "is_word c \<longleftrightarrow>
     (0x30 \<le> c \<and> c \<le> 0x39) \<or> (0x41 \<le> c \<and> c \<le> 0x5A) \<or> c = 0x5F
     \<or> (0x61 \<le> c \<and> c \<le> 0x7A)"

text \<open>The class \<open>[\.!\?]\<close> of the two spacing rules of \<open>cleanAndProcessText\<close>.\<close>

definition is_sentence_end :: "jschar \<Rightarrow> bool" where
  "is_sentence_end c \<longleftrightarrow> c \<in> set (js ''.!?'')"

text \<open>
  The complement of the class \<open>[^\w\s\.\,\!\?\-\(\)\[\]\:\"\']\<close>: the characters
  that \<open>cleanAndProcessText\<close> keeps. The double quote is code unit 0x22, the single
  quote 0x27.
\<close>

definition is_allowed :: "jschar \<Rightarrow> bool" where
  "is_allowed c \<longleftrightarrow>
     is_word c \<or> is_space c \<or> c \<in> set (js ''.,!?-()[]:'') \<or> c = 0x22 \<or> c = 0x27"

definition SPACE :: jschar where
  "SPACE = 0x20"

definition NEWLINE :: jschar where
  "NEWLINE = 0x0A"

text \<open>\<open>s.trim()\<close>: whitespace is removed at both ends.\<close>

definition trim :: "jsstring \<Rightarrow> jsstring" where
  "trim s = rev (dropWhile is_space (rev (dropWhile is_space s)))"

text \<open>
  \<open>s.substring(a, b)\<close>: both indices are clamped to \<open>0 .. s.length\<close> and swapped
  when the first is the larger one.
\<close>

definition clamp_index :: "jsstring \<Rightarrow> int \<Rightarrow> nat" where
  "clamp_index s i = (if i < 0 then 0 else min (nat i) (length s))"

definition substring :: "jsstring \<Rightarrow> int \<Rightarrow> int \<Rightarrow> jsstring" where
  "substring s a b =
     (let lo = min (clamp_index s a) (clamp_index s b);
          hi = max (clamp_index s a) (clamp_index s b)
      in take (hi - lo) (drop lo s))"

text \<open>
  \<open>s.lastIndexOf(c)\<close> for a one-character search string: the search runs from the last
  index down to 0 and yields the first index found, or \<open>-1\<close>.
\<close>

primrec lastIndexOf_from :: "jsstring \<Rightarrow> jschar \<Rightarrow> nat \<Rightarrow> int" where
  "lastIndexOf_from s c 0 = - 1"
| "lastIndexOf_from s c (Suc k) = (if s ! k = c then int k else lastIndexOf_from s c k)"

definition lastIndexOf :: "jsstring \<Rightarrow> jschar \<Rightarrow> int" where
  "lastIndexOf s c = lastIndexOf_from s c (length s)"

section \<open>Truncation before transcreation (extract-pdf/route.ts)\<close>

definition MAX_CHARS_extract :: nat where
  "MAX_CHARS_extract = 2200"

text \<open>
  The block of \<open>POST\<close> that limits \<open>finalText\<close>. The result is the pair
  \<open>(finalText, wasTruncated)\<close>.
\<close>

definition truncate_extracted :: "jsstring \<Rightarrow> jsstring \<times> bool" where
  "truncate_extracted finalText =
     (if length finalText > MAX_CHARS_extract then
        (let truncated = substring finalText 0 (int MAX_CHARS_extract);
             lastPeriod = lastIndexOf truncated (of_char CHR ''.'')
         in (if lastPeriod > 0 then substring truncated 0 (lastPeriod + 1) else truncated,
             True))
      else (finalText, False))"

section \<open>Truncation before speech synthesis (generate-audio/route.ts)\<close>

definition MAX_CHARS_speech :: nat where
  "MAX_CHARS_speech = 2000"

text \<open>
  The source compares \<open>cutPoint > MAX_CHARS * 0.7\<close> in double arithmetic. The double
  nearest to 0.7 times 2000 rounds to exactly 1400, so the comparison is with the
  integer 1400.
\<close>

definition cut_threshold :: int where
  "cut_threshold = (int MAX_CHARS_speech * 7) div 10"

definition ellipsis :: jsstring where
  "ellipsis = js ''...''"

text \<open>\<open>Math.max(lastSentence, lastQuestion, lastExclamation)\<close> on the truncated text.\<close>

definition cutPoint :: "jsstring \<Rightarrow> int" where
  "cutPoint truncated =
     max (max (lastIndexOf truncated (of_char CHR ''.''))
              (lastIndexOf truncated (of_char CHR ''?'')))
         (lastIndexOf truncated (of_char CHR ''!''))"

definition truncate_speech :: "jsstring \<Rightarrow> jsstring" where
  "truncate_speech txt =
     (if length txt > MAX_CHARS_speech then
        (let truncated = substring txt 0 (int MAX_CHARS_speech)
         in if cutPoint truncated > cut_threshold
            then substring truncated 0 (cutPoint truncated + 1)
            else truncated @ ellipsis)
      else txt)"

text \<open>
  The branch of the speech truncation that appends the marker: the text is over the
  budget and \<open>cutPoint > MAX_CHARS * 0.7\<close> is false.
\<close>

definition ellipsis_appended :: "jsstring \<Rightarrow> bool" where
  "ellipsis_appended txt \<longleftrightarrow>
     length txt > MAX_CHARS_speech \<and>
     \<not> cutPoint (substring txt 0 (int MAX_CHARS_speech)) > cut_threshold"

section \<open>Voice selection (generate-audio/route.ts)\<close>

text \<open>
  \<open>voiceMap\<close> is an object literal, so \<open>voiceMap[language]\<close> is a property read: the
  own properties first, then the properties every object inherits from
  \<open>Object.prototype\<close>. An inherited property is a function or an object, never a
  string. A value of the read is a string, such a built-in, or \<open>undefined\<close>.
\<close>

datatype jsvalue = JString jsstring | JBuiltin jsstring | JUndefined

definition truthy :: "jsvalue \<Rightarrow> bool" where
  "truthy v = (case v of JString s \<Rightarrow> s \<noteq> [] | JBuiltin _ \<Rightarrow> True | JUndefined \<Rightarrow> False)"

definition voiceMap :: "(jsstring \<times> jsstring) list" where
  "voiceMap =
     [(js ''Hindi'', js ''pNInz6obpgDQGcFmaJgB''),
      (js ''Telugu'', js ''pNInz6obpgDQGcFmaJgB''),
      (js ''Spanish'', js ''EXAVITQu4vr4xnSDxMaL''),
      (js ''French'', js ''EXAVITQu4vr4xnSDxMaL''),
      (js ''Chinese'', js ''EXAVITQu4vr4xnSDxMaL'')]"

definition object_prototype_keys :: "jsstring list" where
  "object_prototype_keys =
     map js [''constructor'', ''__defineGetter__'', ''__defineSetter__'',
             ''hasOwnProperty'', ''__lookupGetter__'', ''__lookupSetter__'',
             ''isPrototypeOf'', ''propertyIsEnumerable'', ''toString'', ''valueOf'',
             ''__proto__'', ''toLocaleString'']"

definition property_read :: "(jsstring \<times> jsstring) list \<Rightarrow> jsstring \<Rightarrow> jsvalue" where
  "property_read obj key =
     (case map_of obj key of
        Some v \<Rightarrow> JString v
      | None \<Rightarrow> if key \<in> set object_prototype_keys then JBuiltin key else JUndefined)"

definition DEFAULT_VOICE :: jsstring where
  "DEFAULT_VOICE = js ''pNInz6obpgDQGcFmaJgB''"

text \<open>\<open>const voiceId = voiceMap[language] || 'pNInz6obpgDQGcFmaJgB'\<close>\<close>

definition voiceId :: "jsstring \<Rightarrow> jsvalue" where
  "voiceId language =
     (let v = property_read voiceMap language
      in if truthy v then v else JString DEFAULT_VOICE)"

section \<open>Text cleaning (extract-pdf/route.ts, cleanAndProcessText)\<close>

text \<open>
  \<open>text.replace(/p+/g, r)\<close> for a character class \<open>p\<close> and a one-character
  replacement: the scan goes left to right, a match is the longest run of \<open>p\<close> that
  starts at the current position, and the scan resumes after the match.
\<close>

function replace_runs :: "(jschar \<Rightarrow> bool) \<Rightarrow> jschar \<Rightarrow> jsstring \<Rightarrow> jsstring" where
  "replace_runs p r [] = []"
| "replace_runs p r (c # cs) =
     (if p c then r # replace_runs p r (dropWhile p cs) else c # replace_runs p r cs)"
  by pat_completeness auto
termination
  by (relation "measure (\<lambda>(p, r, s). length s)")
    (auto simp: length_dropWhile_le less_Suc_eq_le)

text \<open>
  \<open>.replace(/[^\w\s\.\,\!\?\-\(\)\[\]\:\"\']/g, ' ')\<close>: every character outside the
  class becomes one space.
\<close>

definition replace_special :: "jsstring \<Rightarrow> jsstring" where
  "replace_special s = map (\<lambda>c. if is_allowed c then c else SPACE) s"

text \<open>
  \<open>.replace(/\s+([\.!\?])/g, '$1')\<close>: at a whitespace character the longest run of
  whitespace is taken; the match succeeds when a sentence end follows the run, and then
  the run is dropped, the sentence end kept, and the scan resumes after it. A shorter
  run cannot match (it is followed by whitespace), so on failure the character is kept
  and the scan moves one position on.
\<close>

function strip_before_end :: "jsstring \<Rightarrow> jsstring" where
  "strip_before_end [] = []"
| "strip_before_end (c # cs) =
     (if is_space c then
        (case dropWhile is_space cs of
           [] \<Rightarrow> c # strip_before_end cs
         | p # rest \<Rightarrow>
             if is_sentence_end p then p # strip_before_end rest
             else c # strip_before_end cs)
      else c # strip_before_end cs)"
  by pat_completeness auto
termination
proof (relation "measure length", goal_cases)
  case 1
  show ?case by simp
next
  case (2 c cs)
  show ?case by simp
next
  case (3 c cs p rest)
  have "length (dropWhile is_space cs) \<le> length cs"
    by (rule length_dropWhile_le)
  with 3 show ?case by simp
next
  case (4 c cs p rest)
  show ?case by simp
next
  case (5 c cs)
  show ?case by simp
qed

text \<open>
  \<open>.replace(/([\.!\?])\s*/g, '$1 ')\<close>: a sentence end and the whitespace after it
  become the sentence end and one space.
\<close>

function space_after_end :: "jsstring \<Rightarrow> jsstring" where
  "space_after_end [] = []"
| "space_after_end (c # cs) =
     (if is_sentence_end c then c # SPACE # space_after_end (dropWhile is_space cs)
      else c # space_after_end cs)"
  by pat_completeness auto
termination
  by (relation "measure length") (auto simp: length_dropWhile_le less_Suc_eq_le)

text \<open>The two replacements under the comment \<open>Fix spacing around punctuation\<close>.\<close>

definition fix_spacing :: "jsstring \<Rightarrow> jsstring" where
  "fix_spacing s = space_after_end (strip_before_end s)"

definition cleanAndProcessText :: "jsstring \<Rightarrow> jsstring" where
  "cleanAndProcessText s =
     trim (fix_spacing (replace_special
       (replace_runs (\<lambda>c. c = NEWLINE) NEWLINE (replace_runs is_space SPACE s))))"

subsection \<open>Shapes of cleaned text\<close>

text \<open>
  Predicates on strings used to describe what the stages of \<open>cleanAndProcessText\<close>
  produce: the only whitespace is the plain space; no two whitespace characters are
  adjacent; a sentence end that has a successor is followed by whitespace; and a
  whitespace character that is followed by a sentence end is itself preceded by a
  sentence end (the flag tells whether the character before the string is one).
\<close>

definition only_plain_spaces :: "jsstring \<Rightarrow> bool" where
  "only_plain_spaces s \<longleftrightarrow> (\<forall>c \<in> set s. is_space c \<longrightarrow> c = SPACE)"

definition no_double_space :: "jsstring \<Rightarrow> bool" where
  "no_double_space s \<longleftrightarrow> successively (\<lambda>c d. \<not> (is_space c \<and> is_space d)) s"

definition end_spaced :: "jsstring \<Rightarrow> bool" where
  "end_spaced s \<longleftrightarrow> successively (\<lambda>c d. is_sentence_end c \<longrightarrow> is_space d) s"

fun space_end_after_end :: "bool \<Rightarrow> jsstring \<Rightarrow> bool" where
  "space_end_after_end prev [] = True"
| "space_end_after_end prev [c] = True"
| "space_end_after_end prev (c # d # r) =
     ((is_space c \<and> is_sentence_end d \<longrightarrow> prev) \<and>
      space_end_after_end (is_sentence_end c) (d # r))"

definition all_allowed :: "jsstring \<Rightarrow> bool" where
  "all_allowed s \<longleftrightarrow> (\<forall>c \<in> set s. is_allowed c)"

section \<open>Text-layer extraction (extract-pdf/route.ts, the pdfreader callback)\<close>

text \<open>
  \<open>parseBuffer\<close> calls the callback once per event: with an error, with an item, or
  with no item at the end of the file. An item may carry a page number
  (\<open>item.page\<close>) and a text (\<open>item.text\<close>).
\<close>

record pdf_item =
  item_page :: "nat option"
  item_text :: "jsstring option"

datatype parse_event = ParseError jsstring | ParseItem pdf_item | ParseEnd

text \<open>
  The variables the callback closes over, and the state of the promise: pending
  (\<open>None\<close>), rejected with an error message (\<open>Inl\<close>) or resolved with a text
  (\<open>Inr\<close>).
\<close>

record parse_state =
  acc_text :: jsstring
  pageCount :: nat
  currentPage :: nat
  totalPages :: nat
  settled :: "(jsstring + jsstring) option"

definition maxPages :: nat where
  "maxPages = 3"

definition parse_init :: parse_state where
  "parse_init =
     \<lparr>acc_text = [], pageCount = 0, currentPage = 0, totalPages = 0, settled = None\<rparr>"

text \<open>\<open>resolve\<close> and \<open>reject\<close> settle a promise once; later calls change nothing.\<close>

definition settle :: "jsstring + jsstring \<Rightarrow> parse_state \<Rightarrow> parse_state" where
  "settle v st = (case settled st of None \<Rightarrow> st\<lparr>settled := Some v\<rparr> | Some _ \<Rightarrow> st)"

text \<open>\<open>if (item.text && currentPage <= maxPages) text += item.text + ' '\<close>\<close>

definition add_text :: "pdf_item \<Rightarrow> parse_state \<Rightarrow> parse_state" where
  "add_text item st =
     (case item_text item of
        Some t \<Rightarrow>
          if t \<noteq> [] \<and> currentPage st \<le> maxPages
          then st\<lparr>acc_text := acc_text st @ t @ [SPACE]\<rparr>
          else st
      | None \<Rightarrow> st)"

text \<open>One call of the callback. A page number is truthy when it is not 0.\<close>

definition on_event :: "parse_event \<Rightarrow> parse_state \<Rightarrow> parse_state" where
  "on_event ev st =
     (case ev of
        ParseError msg \<Rightarrow> settle (Inl (js ''PDF parsing failed: '' @ msg)) st
      | ParseEnd \<Rightarrow>
          settle (Inr (trim (acc_text st))) (st\<lparr>totalPages := pageCount st\<rparr>)
      | ParseItem item \<Rightarrow>
          (case item_page item of
             Some p \<Rightarrow>
               if p \<noteq> 0 then
                 (let st1 = st\<lparr>currentPage := p, pageCount := max (pageCount st) p\<rparr>
                  in if p > maxPages
                     then settle (Inr (trim (acc_text st1)))
                            (st1\<lparr>totalPages := pageCount st1\<rparr>)
                     else add_text item st1)
               else add_text item st
           | None \<Rightarrow> add_text item st))"

text \<open>
  The whole parse: the callback runs for every event that pdfreader delivers, in
  order, also after the promise is settled.
\<close>

definition parse_run :: "parse_event list \<Rightarrow> parse_state" where
  "parse_run evs = fold on_event evs parse_init"

subsection \<open>The text tokens of a document, page by page\<close>


definition render_tokens :: "(nat \<times> jsstring) list \<Rightarrow> jsstring" where
  "render_tokens toks = concat (map (\<lambda>(p, t). t @ [SPACE]) toks)"




text \<open>The two kinds of item that pdfreader delivers for a page: its number, and a text on it.\<close>

definition page_item :: "nat \<Rightarrow> parse_event" where
  "page_item p = ParseItem \<lparr>item_page = Some p, item_text = None\<rparr>"

definition text_item :: "jsstring \<Rightarrow> parse_event" where
  "text_item t = ParseItem \<lparr>item_page = None, item_text = Some t\<rparr>"

section \<open>OCR fallback (extract-pdf/route.ts, extractTextWithOCR)\<close>

text \<open>
  The file system is the set of paths that exist. \<open>fs.existsSync\<close> tests membership;
  \<open>fs.unlinkSync\<close> of a path either removes it or throws (the path is a directory,
  or the file cannot be deleted) and then leaves it where it is. The source guards
  every unlink with \<open>existsSync\<close>. What the libraries and the operating system decide
  is read from an environment: whether \<open>mkdirSync\<close> and \<open>pdf2pic.fromPath\<close> throw,
  how \<open>writeFileSync\<close> ends (a failed write may leave a partial file), for which
  paths \<open>unlinkSync\<close> throws and what, and what \<open>convert(pageNum)\<close> and
  \<open>tesseract.recognize\<close> do for each page. The two paths are the results of
  \<open>path.join\<close>: the directory \<open>temp\<close> under the working directory, and the path made
  of that directory, \<open>Date.now()\<close> and the name of the upload; \<open>path.join\<close>
  normalises, so for a name such as \<open>x/..\<close> the second path is the directory itself.
\<close>

type_synonym path = jsstring

datatype js_error = JsError jsstring

datatype write_outcome = Written | WriteFailedNoFile | WriteFailedPartialFile

datatype convert_outcome = ConvertThrows | Converted "path option"

datatype recognize_outcome = RecognizeThrows | Recognized jsstring

record ocr_env =
  tempDir :: path
  tempPdfPath :: "jsstring \<Rightarrow> path"
  mkdir_error :: "js_error option"
  write_result :: write_outcome
  fromPath_throws :: bool
  unlink_error :: "path \<Rightarrow> js_error option"
  convert_page :: "nat \<Rightarrow> convert_outcome"
  recognize :: "path \<Rightarrow> recognize_outcome"

definition OcrError :: js_error where
  "OcrError = JsError (js ''Failed to extract text using OCR'')"

text \<open>\<open>fs.unlinkSync(p)\<close>: the error thrown, or the file system without the path.\<close>

definition unlinkSync :: "ocr_env \<Rightarrow> path \<Rightarrow> path set \<Rightarrow> js_error + path set" where
  "unlinkSync env p fs = (case unlink_error env p of Some e \<Rightarrow> Inl e | None \<Rightarrow> Inr (fs - {p}))"

text \<open>
  The body of the loop for one page, inside its own \<open>try\<close>: a throw of \<open>convert\<close> or
  of \<open>recognize\<close> is caught and the loop goes on with the text and the files as they
  are. \<open>convert\<close> writes the image it names; \<open>result.path\<close> is truthy when it is a
  non-empty string. The unlink of the image comes after the text of the page is
  appended, and a throw of it is caught like the others. The state is the text
  extracted so far and the file system.
\<close>

definition ocr_page :: "ocr_env \<Rightarrow> nat \<Rightarrow> jsstring \<times> path set \<Rightarrow> jsstring \<times> path set" where
  "ocr_page env pageNum st =
     (case st of (extractedText, fs) \<Rightarrow>
        (case convert_page env pageNum of
           ConvertThrows \<Rightarrow> (extractedText, fs)
         | Converted None \<Rightarrow> (extractedText, fs)
         | Converted (Some img) \<Rightarrow>
             if img = [] then (extractedText, fs)
             else
               (case recognize env img of
                  RecognizeThrows \<Rightarrow> (extractedText, insert img fs)
                | Recognized pageText \<Rightarrow>
                    (let extractedText1 =
                           (if trim pageText \<noteq> []
                            then extractedText @ trim pageText @ [NEWLINE, NEWLINE]
                            else extractedText);
                         fs1 = insert img fs
                     in if img \<in> fs1 then
                          (case unlinkSync env img fs1 of
                             Inl e \<Rightarrow> (extractedText1, fs1)
                           | Inr fs2 \<Rightarrow> (extractedText1, fs2))
                        else (extractedText1, fs1)))))"

text \<open>
  The outer \<open>try\<close> with its \<open>catch\<close>: the result and the file system when control
  reaches \<open>finally\<close>.
\<close>

definition ocr_try :: "ocr_env \<Rightarrow> path set \<Rightarrow> jsstring \<Rightarrow> (js_error + jsstring) \<times> path set" where
  "ocr_try env fs filename =
     (case write_result env of
        WriteFailedNoFile \<Rightarrow> (Inl OcrError, fs)
      | WriteFailedPartialFile \<Rightarrow> (Inl OcrError, insert (tempPdfPath env filename) fs)
      | Written \<Rightarrow>
          (let fs1 = insert (tempPdfPath env filename) fs
           in if fromPath_throws env then (Inl OcrError, fs1)
              else (case fold (ocr_page env) [1, 2, 3] ([], fs1) of
                      (extractedText, fs2) \<Rightarrow> (Inr (trim extractedText), fs2))))"

text \<open>
  The whole function: the directory step before the \<open>try\<close>, the \<open>try\<close> with its
  \<open>catch\<close>, and the \<open>finally\<close> block. A throw of \<open>unlinkSync\<close> in \<open>finally\<close>
  replaces the value returned or the error thrown so far.
\<close>

definition extractTextWithOCR ::
  "ocr_env \<Rightarrow> path set \<Rightarrow> jsstring \<Rightarrow> (js_error + jsstring) \<times> path set" where
  "extractTextWithOCR env fs filename =
     (if tempDir env \<notin> fs \<and> mkdir_error env \<noteq> None
      then (Inl (the (mkdir_error env)), fs)
      else
        (let fs0 = (if tempDir env \<notin> fs then insert (tempDir env) fs else fs)
         in case ocr_try env fs0 filename of
              (result, fs1) \<Rightarrow>
                if tempPdfPath env filename \<in> fs1 then
                  (case unlinkSync env (tempPdfPath env filename) fs1 of
                     Inl e \<Rightarrow> (Inl e, fs1)
                   | Inr fs2 \<Rightarrow> (result, fs2))
                else (result, fs1)))"


text \<open>
  The unlink in \<open>finally\<close> throws: \<open>unlinkSync\<close> throws for the temporary path, and
  the path exists when \<open>finally\<close> is reached, because it was there before the write
  (it may be the temporary directory itself) or because the write created it.
\<close>

definition final_unlink_throws :: "ocr_env \<Rightarrow> path set \<Rightarrow> jsstring \<Rightarrow> bool" where
  "final_unlink_throws env fs filename \<longleftrightarrow>
     unlink_error env (tempPdfPath env filename) \<noteq> None \<and>
     (tempPdfPath env filename \<in> fs \<or> tempPdfPath env filename = tempDir env \<or>
      write_result env \<noteq> WriteFailedNoFile)"


section \<open>The document store (lib/database, quoted in README.md)\<close>

text \<open>
  The table \<open>documents\<close> in insertion order, which is the order of the row ids, and the
  counter of \<open>AUTOINCREMENT\<close>. \<open>findByFilename\<close> is
  \<open>SELECT * FROM documents WHERE filename = ?\<close>, and \<open>.get\<close> yields the first row of
  the scan or \<open>undefined\<close>.
\<close>

record document =
  doc_id :: nat
  doc_filename :: jsstring
  original_filename :: jsstring
  file_size :: nat
  extracted_text :: jsstring
  page_count :: nat
  extracted_pages :: nat

record database =
  documents :: "document list"
  last_rowid :: nat

definition findByFilename :: "database \<Rightarrow> jsstring \<Rightarrow> document option" where
  "findByFilename db name = find (\<lambda>d. doc_filename d = name) (documents db)"

text \<open>
  \<open>documentQueries.insert.run(filename, original_filename, file_size, extracted_text,
  page_count, extracted_pages)\<close>; the result is the new store and \<open>lastInsertRowid\<close>.
\<close>

definition insert_document ::
  "database \<Rightarrow> jsstring \<Rightarrow> jsstring \<Rightarrow> nat \<Rightarrow> jsstring \<Rightarrow> nat \<Rightarrow> nat \<Rightarrow> database \<times> nat" where
  "insert_document db fname oname fsize txt pages epages =
     (let rowid = last_rowid db + 1
      in (\<lparr>documents = documents db @
             [\<lparr>doc_id = rowid, doc_filename = fname, original_filename = oname,
               file_size = fsize, extracted_text = txt, page_count = pages,
               extracted_pages = epages\<rparr>],
           last_rowid = rowid\<rparr>, rowid))"

section \<open>The extraction endpoint (extract-pdf/route.ts, POST)\<close>

text \<open>
  The uploaded file: its name, its media type and its bytes; \<open>file.size\<close> is the number
  of bytes. A response is a status and the fields of its JSON body, in the order of
  the source.
\<close>

record upload =
  file_name :: jsstring
  file_type :: jsstring
  file_bytes :: "8 word list"

datatype json = JsonString jsstring | JsonNumber int | JsonBool bool

record response =
  status :: nat
  body :: "(string \<times> json) list"

text \<open>
  The calls of the two extractors that a request makes, in order, each with what it
  returned: the promise of the text-layer parse, and the result of the OCR fallback.
\<close>

datatype extractor_call =
  TextLayerCall "(jsstring + jsstring) option"
| OcrCall "js_error + jsstring"

text \<open>
  What a request leaves behind: the response (\<open>None\<close> when the promise of the parse is
  never settled, so that the handler never answers), the store, the file system and
  the extractor calls.
\<close>

record outcome =
  resp :: "response option"
  db_after :: database
  fs_after :: "path set"
  calls :: "extractor_call list"

record extract_env =
  parse_events :: "8 word list \<Rightarrow> parse_event list"
  ocr :: ocr_env

definition error_json :: "nat \<Rightarrow> string \<Rightarrow> response" where
  "error_json code msg = \<lparr>status = code, body = [(''error'', JsonString (js msg))]\<rparr>"

text \<open>\<open>s.includes(sub)\<close>\<close>

primrec includes_str :: "jsstring \<Rightarrow> jsstring \<Rightarrow> bool" where
  "includes_str [] sub = (sub = [])"
| "includes_str (c # cs) sub = (take (length sub) (c # cs) = sub \<or> includes_str cs sub)"

text \<open>The \<open>catch\<close> block of the handler: the response is chosen by the error message.\<close>

definition error_response :: "js_error \<Rightarrow> response" where
  "error_response e =
     (case e of JsError m \<Rightarrow>
        if includes_str m (js ''PDF header'') then
          error_json 400 ''Invalid PDF file format. Please ensure you uploaded a valid PDF.''
        else if includes_str m (js ''Password'') \<or> includes_str m (js ''password'') then
          error_json 400 ''Password-protected PDFs are not supported''
        else if includes_str m (js ''meaningful text'') \<or> includes_str m (js ''image-based'') then
          error_json 400
            ''Could not extract text from PDF. The PDF might be image-based or contain mostly graphics.''
        else if includes_str m (js ''empty'') \<or> includes_str m (js ''corrupted'') then
          error_json 400 ''PDF file appears to be corrupted or empty''
        else
          error_json 500
            ''Failed to process PDF. Please ensure the PDF contains selectable text and try again.'')"

definition PDF_HEADER :: "8 word list" where
  "PDF_HEADER = map of_char ''%PDF''"

definition OCR_THRESHOLD :: nat where
  "OCR_THRESHOLD = 50"

definition cached_response :: "document \<Rightarrow> response" where
  "cached_response d =
     \<lparr>status = 200,
      body =
        [(''text'', JsonString (extracted_text d)),
         (''pages'', JsonNumber (int (page_count d))),
         (''extractedPages'', JsonNumber (int (extracted_pages d))),
         (''extractedLength'', JsonNumber (int (length (extracted_text d)))),
         (''originalLength'', JsonNumber (int (length (extracted_text d)))),
         (''filename'', JsonString (original_filename d)),
         (''documentId'', JsonNumber (int (doc_id d))),
         (''cached'', JsonBool True)]\<rparr>"

text \<open>
  From the cleaning of the extracted text to the response: clean, truncate, store,
  answer. \<open>pages\<close> is \<open>totalPages\<close> as the callback left it.
\<close>

definition store_and_respond ::
  "database \<Rightarrow> path set \<Rightarrow> upload \<Rightarrow> nat \<Rightarrow> extractor_call list \<Rightarrow> jsstring \<Rightarrow> outcome" where
  "store_and_respond db fs file pages log extractedText =
     (let cleanedText = cleanAndProcessText extractedText;
          originalLength = length cleanedText;
          (finalText, wasTruncated) = truncate_extracted cleanedText;
          epages = (if pages > 3 then 3 else pages);
          (db1, documentId) =
            insert_document db (file_name file) (file_name file) (length (file_bytes file))
              finalText pages epages
      in \<lparr>resp = Some
             \<lparr>status = 200,
              body =
                [(''text'', JsonString finalText),
                 (''pages'', JsonNumber (int pages)),
                 (''extractedPages'', JsonNumber (int epages)),
                 (''originalLength'', JsonNumber (int originalLength)),
                 (''extractedLength'', JsonNumber (int (length finalText))),
                 (''wasTruncated'', JsonBool wasTruncated),
                 (''filename'', JsonString (file_name file)),
                 (''documentId'', JsonNumber (int documentId)),
                 (''cached'', JsonBool False)]\<rparr>,
          db_after = db1, fs_after = fs, calls = log\<rparr>)"

text \<open>
  The handler after the cache check: the checks of the buffer, the text-layer parse,
  the OCR fallback under the threshold, and the rest. A thrown error ends in the
  \<open>catch\<close> block. The items are delivered to the callback in one synchronous run, so
  the handler continues after the last of them and reads \<open>totalPages\<close> then.
\<close>

definition extract_fresh :: "extract_env \<Rightarrow> database \<Rightarrow> path set \<Rightarrow> upload \<Rightarrow> outcome" where
  "extract_fresh env db fs file =
     (let buffer = file_bytes file
      in if length buffer = 0 then
           \<lparr>resp = Some (error_response (JsError (js ''File buffer is empty''))),
            db_after = db, fs_after = fs, calls = []\<rparr>
         else if take 4 buffer \<noteq> PDF_HEADER then
           \<lparr>resp = Some (error_response (JsError (js ''Invalid PDF file - missing PDF header''))),
            db_after = db, fs_after = fs, calls = []\<rparr>
         else
           (let st = parse_run (parse_events env buffer);
                log1 = [TextLayerCall (settled st)]
            in case settled st of
                 None \<Rightarrow> \<lparr>resp = None, db_after = db, fs_after = fs, calls = log1\<rparr>
               | Some (Inl msg) \<Rightarrow>
                   \<lparr>resp = Some (error_response (JsError msg)),
                    db_after = db, fs_after = fs, calls = log1\<rparr>
               | Some (Inr extractedText) \<Rightarrow>
                   if length (trim extractedText) < OCR_THRESHOLD then
                     (case extractTextWithOCR (ocr env) fs (file_name file) of
                        (result, fs1) \<Rightarrow>
                          (let log2 = log1 @ [OcrCall result]
                           in case result of
                                Inl e \<Rightarrow>
                                  \<lparr>resp = Some (error_response e),
                                   db_after = db, fs_after = fs1, calls = log2\<rparr>
                              | Inr ocrText \<Rightarrow>
                                  if length (trim ocrText) = 0 then
                                    \<lparr>resp = Some (error_json 400
                                       ''Could not extract text from PDF. The document may be empty, corrupted, or an unsupported format.''),
                                     db_after = db, fs_after = fs1, calls = log2\<rparr>
                                  else store_and_respond db fs1 file (totalPages st) log2 ocrText))
                   else store_and_respond db fs file (totalPages st) log1 extractedText))"

text \<open>The handler from the form data on; \<open>None\<close> is a request without a file.\<close>

definition POST :: "extract_env \<Rightarrow> database \<Rightarrow> path set \<Rightarrow> upload option \<Rightarrow> outcome" where
  "POST env db fs request =
     (case request of
        None \<Rightarrow>
          \<lparr>resp = Some (error_json 400 ''No file provided''),
           db_after = db, fs_after = fs, calls = []\<rparr>
      | Some file \<Rightarrow>
          if file_type file \<noteq> js ''application/pdf'' then
            \<lparr>resp = Some (error_json 400 ''File must be a PDF''),
             db_after = db, fs_after = fs, calls = []\<rparr>
          else if length (file_bytes file) > 10 * 1024 * 1024 then
            \<lparr>resp = Some (error_json 400 ''File size must be less than 10MB''),
             db_after = db, fs_after = fs, calls = []\<rparr>
          else if length (file_bytes file) < 100 then
            \<lparr>resp = Some (error_json 400 ''File appears to be corrupted or empty''),
             db_after = db, fs_after = fs, calls = []\<rparr>
          else
            (case findByFilename db (file_name file) of
               Some existingDoc \<Rightarrow>
                 if file_size existingDoc = length (file_bytes file) then
                   \<lparr>resp = Some (cached_response existingDoc),
                    db_after = db, fs_after = fs, calls = []\<rparr>
                 else extract_fresh env db fs file
             | None \<Rightarrow> extract_fresh env db fs file))"

section \<open>Sample inputs\<close>

text \<open>
  Concrete environments, uploads and stores on which the properties below are
  exercised: an OCR environment in which every page conversion throws, one in which
  only page 2 yields text, one for an upload named \<open>x/..\<close> (the temporary path is the
  temporary directory: the write fails, and so does the unlink, both with
  \<open>EISDIR\<close>), one in which the temporary file is written and cannot be deleted, a
  parser that delivers one page with one text, an upload named \<open>a.pdf\<close> of \<open>4 + n\<close>
  bytes, and a text of 60 letters.
\<close>

definition sample_ocr_env :: ocr_env where
  "sample_ocr_env =
     \<lparr>tempDir = js ''/app/temp'', tempPdfPath = (\<lambda>f. js ''/app/temp/1700000000000-'' @ f),
      mkdir_error = None, write_result = Written, fromPath_throws = False,
      unlink_error = (\<lambda>p. None),
      convert_page = (\<lambda>n. ConvertThrows), recognize = (\<lambda>p. RecognizeThrows)\<rparr>"

definition sample_env :: "jsstring \<Rightarrow> extract_env" where
  "sample_env t =
     \<lparr>parse_events = (\<lambda>b. [page_item 1, text_item t, ParseEnd]), ocr = sample_ocr_env\<rparr>"

definition sample_upload :: "nat \<Rightarrow> upload" where
  "sample_upload n =
     \<lparr>file_name = js ''a.pdf'', file_type = js ''application/pdf'',
      file_bytes = PDF_HEADER @ replicate n 0\<rparr>"

definition empty_db :: database where
  "empty_db = \<lparr>documents = [], last_rowid = 0\<rparr>"

definition sample_text :: jsstring where
  "sample_text = replicate 60 (of_char CHR ''a'')"


definition sample_row :: document where
  "sample_row =
     \<lparr>doc_id = 1, doc_filename = js ''a.pdf'', original_filename = js ''a.pdf'',
      file_size = 100, extracted_text = sample_text, page_count = 1, extracted_pages = 1\<rparr>"

definition EISDIR :: js_error where
  "EISDIR = JsError (js ''EISDIR: illegal operation on a directory, unlink'')"

definition EPERM :: js_error where
  "EPERM = JsError (js ''EPERM: operation not permitted, unlink'')"

definition traversal_ocr_env :: ocr_env where
  "traversal_ocr_env =
     sample_ocr_env
       \<lparr>tempPdfPath :=
          (\<lambda>f. if f = js ''x/..'' then js ''/app/temp''
               else js ''/app/temp/1700000000000-'' @ f),
        write_result := WriteFailedNoFile,
        unlink_error := (\<lambda>p. if p = js ''/app/temp'' then Some EISDIR else None)\<rparr>"

definition locked_ocr_env :: ocr_env where
  "locked_ocr_env = sample_ocr_env\<lparr>unlink_error := (\<lambda>p. Some EPERM)\<rparr>"

section \<open>Properties of the string primitives\<close>

lemma substring_0: "substring s 0 (int n) = take n s"
  by (simp add: substring_def clamp_index_def Let_def min_def)

lemma length_substring_le: "length (substring s a b) \<le> length s"
  by (simp add: substring_def Let_def)

lemma substring_prefix:
  assumes "0 \<le> i" "i < int (length s)"
  shows "substring s 0 (i + 1) = take (nat i + 1) s"
proof -
  from assms have "i + 1 = int (nat i + 1)" by simp
  then show ?thesis using substring_0 by metis
qed

lemma lastIndexOf_from_range:
  "- 1 \<le> lastIndexOf_from s c k \<and> lastIndexOf_from s c k < int k"
  by (induction k) auto

lemma lastIndexOf_from_eq:
  "lastIndexOf_from s c k = int i \<longleftrightarrow>
     i < k \<and> s ! i = c \<and> (\<forall>j. i < j \<and> j < k \<longrightarrow> s ! j \<noteq> c)"
proof (induction k)
  case 0
  then show ?case by simp
next
  case (Suc k)
  show ?case
  proof (cases "s ! k = c")
    case True
    then show ?thesis
      by (auto simp: less_Suc_eq)
  next
    case False
    then show ?thesis using Suc
      by (auto simp: less_Suc_eq)
  qed
qed

lemma lastIndexOf_from_none:
  "lastIndexOf_from s c k = - 1 \<longleftrightarrow> (\<forall>j < k. s ! j \<noteq> c)"
proof (induction k)
  case 0
  then show ?case by simp
next
  case (Suc k)
  have "lastIndexOf_from s c k \<ge> - 1"
    using lastIndexOf_from_range by blast
  then show ?case using Suc by (auto simp: less_Suc_eq)
qed

lemma lastIndexOf_range: "- 1 \<le> lastIndexOf s c \<and> lastIndexOf s c < int (length s)"
  by (simp add: lastIndexOf_def lastIndexOf_from_range)

lemma lastIndexOf_eq:
  "lastIndexOf s c = int i \<longleftrightarrow>
     i < length s \<and> s ! i = c \<and> (\<forall>j. i < j \<and> j < length s \<longrightarrow> s ! j \<noteq> c)"
  by (simp add: lastIndexOf_def lastIndexOf_from_eq)

lemma lastIndexOf_none: "lastIndexOf s c = - 1 \<longleftrightarrow> (\<forall>j < length s. s ! j \<noteq> c)"
  by (simp add: lastIndexOf_def lastIndexOf_from_none)

lemma lastIndexOf_le:
  assumes "\<forall>j. i < j \<and> j < length s \<longrightarrow> s ! j \<noteq> c"
  shows "lastIndexOf s c \<le> int i"
proof (cases "lastIndexOf s c = - 1")
  case True
  then show ?thesis by simp
next
  case False
  with lastIndexOf_range [of s c] have "0 \<le> lastIndexOf s c" by linarith
  then obtain k where k: "lastIndexOf s c = int k"
    using nonneg_int_cases by blast
  then have "k < length s \<and> s ! k = c" by (simp add: lastIndexOf_eq)
  with assms have "k \<le> i" by (cases "i < k") auto
  with k show ?thesis by simp
qed

lemma lastIndexOf_replicate_other: "c \<noteq> a \<Longrightarrow> lastIndexOf (replicate n a) c = - 1"
  by (simp add: lastIndexOf_none)

lemma cutPoint_range: "- 1 \<le> cutPoint s \<and> cutPoint s < int (length s)"
  using lastIndexOf_range [of s "of_char CHR ''.''"] lastIndexOf_range [of s "of_char CHR ''?''"]
    lastIndexOf_range [of s "of_char CHR ''!''"]
  by (auto simp: cutPoint_def max_def)

lemma cutPoint_replicate_a: "cutPoint (replicate n (of_char CHR ''a'')) = - 1"
  by (simp add: cutPoint_def lastIndexOf_replicate_other)

section \<open>The truncation budgets\<close>

lemma truncate_extracted_short:
  "length s \<le> MAX_CHARS_extract \<Longrightarrow> truncate_extracted s = (s, False)"
  by (simp add: truncate_extracted_def)

lemma truncate_extracted_long:
  assumes "length s > MAX_CHARS_extract"
  shows "length (fst (truncate_extracted s)) \<le> MAX_CHARS_extract"
proof -
  let ?t = "substring s 0 (int MAX_CHARS_extract)"
  have t: "length ?t \<le> MAX_CHARS_extract" by (simp add: substring_0)
  have "length (substring ?t 0 (lastIndexOf ?t (of_char CHR ''.'') + 1)) \<le> length ?t"
    by (rule length_substring_le)
  with t assms show ?thesis
    by (simp add: truncate_extracted_def Let_def)
qed

lemma truncate_speech_short:
  "length s \<le> MAX_CHARS_speech \<Longrightarrow> truncate_speech s = s"
  by (simp add: truncate_speech_def)

lemma truncate_speech_long:
  assumes "length s > MAX_CHARS_speech"
  shows "length (truncate_speech s)
     \<le> MAX_CHARS_speech + (if ellipsis_appended s then length ellipsis else 0)"
proof -
  let ?t = "substring s 0 (int MAX_CHARS_speech)"
  have t: "length ?t \<le> MAX_CHARS_speech" by (simp add: substring_0)
  have "length (substring ?t 0 (cutPoint ?t + 1)) \<le> length ?t"
    by (rule length_substring_le)
  with t assms show ?thesis
    by (simp add: truncate_speech_def ellipsis_appended_def Let_def)
qed

text \<open>
  Claim C1. For the text \<open>s\<close> that reaches the truncation before transcreation
  (budget 2200) and the text \<open>t\<close> that reaches the truncation before speech
  (budget 2000): a text within the budget is returned unchanged; a longer text is cut
  to at most the budget, plus the length of the ellipsis marker on the speech path when
  the marker is appended.
\<close>

theorem truncation_invariant:
  "(length s \<le> MAX_CHARS_extract \<longrightarrow> fst (truncate_extracted s) = s) \<and>
   (length s > MAX_CHARS_extract \<longrightarrow>
      length (fst (truncate_extracted s)) \<le> MAX_CHARS_extract) \<and>
   (length t \<le> MAX_CHARS_speech \<longrightarrow> truncate_speech t = t) \<and>
   (length t > MAX_CHARS_speech \<longrightarrow>
      length (truncate_speech t)
        \<le> MAX_CHARS_speech + (if ellipsis_appended t then length ellipsis else 0))"
  using truncate_extracted_short [of s] truncate_extracted_long [of s]
    truncate_speech_short [of t] truncate_speech_long [of t]
  by simp

theorem truncation_invariant_witness:
  "length (js ''Hi.'') \<le> MAX_CHARS_extract \<and>
   fst (truncate_extracted (js ''Hi.'')) = js ''Hi.'' \<and>
   length (replicate 2201 (of_char CHR ''a'' :: jschar)) > MAX_CHARS_extract \<and>
   length (fst (truncate_extracted (replicate 2201 (of_char CHR ''a''))))
     \<le> MAX_CHARS_extract \<and>
   length (js ''Hi.'') \<le> MAX_CHARS_speech \<and> truncate_speech (js ''Hi.'') = js ''Hi.'' \<and>
   length (replicate 2001 (of_char CHR ''a'' :: jschar)) > MAX_CHARS_speech \<and>
   ellipsis_appended (replicate 2001 (of_char CHR ''a'')) \<and>
   length (truncate_speech (replicate 2001 (of_char CHR ''a'')))
     \<le> MAX_CHARS_speech + length ellipsis"
proof -
  have e: "ellipsis_appended (replicate 2001 (of_char CHR ''a''))"
    unfolding ellipsis_appended_def substring_0
    by (simp only: take_replicate cutPoint_replicate_a)
      (simp add: MAX_CHARS_speech_def cut_threshold_def)
  show ?thesis
    using truncation_invariant [of "js ''Hi.''" "js ''Hi.''"]
      truncation_invariant [of "replicate 2201 (of_char CHR ''a'')"
        "replicate 2001 (of_char CHR ''a'')"] e
    by (simp add: js_def MAX_CHARS_extract_def MAX_CHARS_speech_def)
qed

section \<open>Sentence-boundary truncation before speech\<close>

lemma is_sentence_end_iff:
  "is_sentence_end c \<longleftrightarrow>
     c = of_char CHR ''.'' \<or> c = of_char CHR ''?'' \<or> c = of_char CHR ''!''"
  by (auto simp: is_sentence_end_def js_def)

lemma lastIndexOf_sandwich:
  assumes "c \<notin> set ys"
  shows "lastIndexOf (xs @ c # ys) c = int (length xs)"
proof -
  have "\<forall>j. length xs < j \<and> j < length (xs @ c # ys) \<longrightarrow> (xs @ c # ys) ! j \<noteq> c"
  proof (intro allI impI)
    fix j assume j: "length xs < j \<and> j < length (xs @ c # ys)"
    then have "(xs @ c # ys) ! j = ys ! (j - length xs - 1)"
      by (simp add: nth_append nth_Cons')
    moreover from j have "j - length xs - 1 < length ys" by auto
    ultimately show "(xs @ c # ys) ! j \<noteq> c" using assms by (metis nth_mem)
  qed
  then show ?thesis by (simp add: lastIndexOf_eq)
qed

lemma lastIndexOf_absent: "c \<notin> set s \<Longrightarrow> lastIndexOf s c = - 1"
  by (auto simp: lastIndexOf_none)

lemma cutPoint_last_sentence_end:
  assumes c: "c < length t" and e: "is_sentence_end (t ! c)"
    and later: "\<forall>j. c < j \<and> j < length t \<longrightarrow> \<not> is_sentence_end (t ! j)"
  shows "cutPoint t = int c"
proof -
  have le: "lastIndexOf t x \<le> int c" if "is_sentence_end x" for x
  proof (rule lastIndexOf_le, intro allI impI)
    fix j assume "c < j \<and> j < length t"
    with later have "\<not> is_sentence_end (t ! j)" by blast
    with that show "t ! j \<noteq> x" by auto
  qed
  have eq: "lastIndexOf t (t ! c) = int c"
  proof -
    have "\<forall>j. c < j \<and> j < length t \<longrightarrow> t ! j \<noteq> t ! c"
      using later e by metis
    with c show ?thesis by (simp add: lastIndexOf_eq)
  qed
  have 1: "lastIndexOf t (of_char CHR ''.'') \<le> int c"
    and 2: "lastIndexOf t (of_char CHR ''?'') \<le> int c"
    and 3: "lastIndexOf t (of_char CHR ''!'') \<le> int c"
    by (rule le, simp add: is_sentence_end_iff)+
  from e have "t ! c = of_char CHR ''.'' \<or> t ! c = of_char CHR ''?''
      \<or> t ! c = of_char CHR ''!''"
    by (simp only: is_sentence_end_iff)
  with eq have "lastIndexOf t (of_char CHR ''.'') = int c
      \<or> lastIndexOf t (of_char CHR ''?'') = int c
      \<or> lastIndexOf t (of_char CHR ''!'') = int c"
    by metis
  with 1 2 3 show ?thesis
    unfolding cutPoint_def by linarith
qed

lemma cutPoint_no_sentence_end:
  assumes "\<forall>j < length t. \<not> is_sentence_end (t ! j)"
  shows "cutPoint t = - 1"
proof -
  have "lastIndexOf t x = - 1" if "is_sentence_end x" for x
    unfolding lastIndexOf_none using assms that by metis
  then show ?thesis
    by (simp add: cutPoint_def is_sentence_end_iff)
qed

lemma truncate_speech_cut:
  assumes long: "length s > MAX_CHARS_speech"
    and c: "c < MAX_CHARS_speech" and e: "is_sentence_end (s ! c)"
    and later: "\<forall>j. c < j \<and> j < MAX_CHARS_speech \<longrightarrow> \<not> is_sentence_end (s ! j)"
  shows "truncate_speech s =
     (if int c > cut_threshold then take (c + 1) s else take MAX_CHARS_speech s @ ellipsis)"
proof -
  let ?t = "take MAX_CHARS_speech s"
  from long have len: "length ?t = MAX_CHARS_speech" by simp
  have "cutPoint ?t = int c"
  proof (rule cutPoint_last_sentence_end)
    show "c < length ?t" using c len by simp
    show "is_sentence_end (?t ! c)" using c e by simp
    show "\<forall>j. c < j \<and> j < length ?t \<longrightarrow> \<not> is_sentence_end (?t ! j)"
      using later len by simp
  qed
  moreover have "substring ?t 0 (int c + 1) = take (c + 1) s"
  proof -
    have "substring ?t 0 (int c + 1) = take (c + 1) ?t"
      using substring_0 [of ?t "c + 1"] by (simp add: add.commute)
    also have "\<dots> = take (c + 1) s" using c by (simp add: min_def)
    finally show ?thesis .
  qed
  ultimately show ?thesis using long
    by (simp add: truncate_speech_def substring_0 Let_def)
qed

lemma truncate_speech_no_sentence_end:
  assumes long: "length s > MAX_CHARS_speech"
    and none: "\<forall>j < MAX_CHARS_speech. \<not> is_sentence_end (s ! j)"
  shows "truncate_speech s = take MAX_CHARS_speech s @ ellipsis"
proof -
  let ?t = "take MAX_CHARS_speech s"
  have "cutPoint ?t = - 1"
    by (rule cutPoint_no_sentence_end) (use none in simp)
  moreover have "\<not> - 1 > cut_threshold"
    by (simp add: cut_threshold_def)
  ultimately show ?thesis using long
    unfolding truncate_speech_def Let_def substring_0 by simp
qed

text \<open>
  Claim C6, as amended. For a text longer than 2000 code units, let \<open>c\<close> be the largest
  index below 2000 that holds \<open>.\<close>, \<open>?\<close> or \<open>!\<close>. When \<open>c\<close> is strictly greater than
  1400 (70 percent of the budget), the result is the prefix through index \<open>c\<close>;
  when \<open>c\<close> is 1400 or less, or no such index exists, the result is the first 2000
  code units followed by the ellipsis marker.
\<close>

theorem speech_cut_at_sentence_end:
  assumes "length s > MAX_CHARS_speech"
  shows "(\<forall>c < MAX_CHARS_speech.
            is_sentence_end (s ! c) \<and>
            (\<forall>j. c < j \<and> j < MAX_CHARS_speech \<longrightarrow> \<not> is_sentence_end (s ! j)) \<longrightarrow>
            truncate_speech s =
              (if int c > cut_threshold then take (c + 1) s
               else take MAX_CHARS_speech s @ ellipsis)) \<and>
         ((\<forall>j < MAX_CHARS_speech. \<not> is_sentence_end (s ! j)) \<longrightarrow>
            truncate_speech s = take MAX_CHARS_speech s @ ellipsis)"
  using assms truncate_speech_cut truncate_speech_no_sentence_end by blast

theorem speech_cut_at_sentence_end_witness:
  "length (replicate 1500 (of_char CHR ''a'') @ of_char CHR ''.'' #
      replicate 600 (of_char CHR ''a'' :: jschar)) > MAX_CHARS_speech \<and>
   is_sentence_end ((replicate 1500 (of_char CHR ''a'') @ of_char CHR ''.'' #
      replicate 600 (of_char CHR ''a'' :: jschar)) ! 1500) \<and>
   int 1500 > cut_threshold \<and>
   truncate_speech (replicate 1500 (of_char CHR ''a'') @ of_char CHR ''.'' #
      replicate 600 (of_char CHR ''a'')) =
     replicate 1500 (of_char CHR ''a'') @ [of_char CHR ''.''] \<and>
   length (replicate 2001 (of_char CHR ''a'' :: jschar)) > MAX_CHARS_speech \<and>
   truncate_speech (replicate 2001 (of_char CHR ''a'')) =
     replicate 2000 (of_char CHR ''a'') @ ellipsis"
proof -
  let ?s = "replicate 1500 (of_char CHR ''a'') @ of_char CHR ''.'' #
    replicate 600 (of_char CHR ''a'' :: jschar)"
  let ?u = "replicate 2001 (of_char CHR ''a'' :: jschar)"
  have long: "length ?s > MAX_CHARS_speech" "length ?u > MAX_CHARS_speech"
    by (simp_all add: MAX_CHARS_speech_def)
  have c: "(1500::nat) < MAX_CHARS_speech" by (simp add: MAX_CHARS_speech_def)
  have e: "is_sentence_end (?s ! 1500)"
    by (simp add: nth_append is_sentence_end_iff)
  have later: "\<forall>j. 1500 < j \<and> j < MAX_CHARS_speech \<longrightarrow> \<not> is_sentence_end (?s ! j)"
  proof (intro allI impI)
    fix j :: nat
    assume j: "1500 < j \<and> j < MAX_CHARS_speech"
    then have "j - 1501 < 600" unfolding MAX_CHARS_speech_def by arith
    then have "replicate 600 (of_char CHR ''a'' :: jschar) ! (j - 1501) = of_char CHR ''a''"
      by (rule nth_replicate)
    with j show "\<not> is_sentence_end (?s ! j)"
      by (simp add: nth_append nth_Cons' is_sentence_end_iff)
  qed
  have none: "\<forall>j < MAX_CHARS_speech. \<not> is_sentence_end (?u ! j)"
    by (simp add: is_sentence_end_iff MAX_CHARS_speech_def)
  have gt: "int 1500 > cut_threshold"
    by (simp add: cut_threshold_def MAX_CHARS_speech_def)
  from speech_cut_at_sentence_end [OF long(1)] c e later gt
  have 1: "truncate_speech ?s = take (1500 + 1) ?s" by simp
  from speech_cut_at_sentence_end [OF long(2)] none
  have 2: "truncate_speech ?u = take MAX_CHARS_speech ?u @ ellipsis" by blast
  show ?thesis
    using long e gt 1 2 by (simp add: MAX_CHARS_speech_def)
qed

text \<open>
  The claim as stated lets the cut happen when \<open>c\<close> is no further back than 70 percent
  of the budget, which includes index 1400 itself. A text of 2001 code units whose only
  sentence end is at index 1400 is not cut there: the source tests
  \<open>cutPoint > MAX_CHARS * 0.7\<close>, so it keeps 2000 code units and appends the marker.
\<close>

theorem speech_cut_boundary_counterexample:
  "length (replicate 1400 (of_char CHR ''a'') @ of_char CHR ''.'' #
      replicate 600 (of_char CHR ''a'' :: jschar)) > MAX_CHARS_speech \<and>
   is_sentence_end ((replicate 1400 (of_char CHR ''a'') @ of_char CHR ''.'' #
      replicate 600 (of_char CHR ''a'' :: jschar)) ! 1400) \<and>
   set (drop 1401 (take 2000 (replicate 1400 (of_char CHR ''a'') @ of_char CHR ''.'' #
      replicate 600 (of_char CHR ''a'' :: jschar)))) \<inter> set (js ''.?!'') = {} \<and>
   10 * (1400::int) \<ge> 7 * int MAX_CHARS_speech \<and>
   truncate_speech (replicate 1400 (of_char CHR ''a'') @ of_char CHR ''.'' #
      replicate 600 (of_char CHR ''a'')) =
     replicate 1400 (of_char CHR ''a'') @ of_char CHR ''.'' #
       replicate 599 (of_char CHR ''a'') @ js ''...'' \<and>
   truncate_speech (replicate 1400 (of_char CHR ''a'') @ of_char CHR ''.'' #
      replicate 600 (of_char CHR ''a'')) \<noteq>
     take 1401 (replicate 1400 (of_char CHR ''a'') @ of_char CHR ''.'' #
       replicate 600 (of_char CHR ''a''))"
proof -
  let ?s = "replicate 1400 (of_char CHR ''a'') @ of_char CHR ''.'' #
    replicate 600 (of_char CHR ''a'' :: jschar)"
  have t: "take 2000 ?s =
      replicate 1400 (of_char CHR ''a'') @ of_char CHR ''.'' # replicate 599 (of_char CHR ''a'')"
    by (simp add: take_Cons')
  have cp: "cutPoint (take 2000 ?s) = 1400"
    unfolding t cutPoint_def
    by (simp add: lastIndexOf_sandwich lastIndexOf_absent)
  have ts: "truncate_speech ?s =
      replicate 1400 (of_char CHR ''a'') @ of_char CHR ''.'' #
        replicate 599 (of_char CHR ''a'') @ js ''...''"
    unfolding truncate_speech_def Let_def substring_0 MAX_CHARS_speech_def cp
    by (simp add: cut_threshold_def MAX_CHARS_speech_def ellipsis_def take_Cons')
  have ne: "truncate_speech ?s \<noteq> take 1401 ?s"
    unfolding ts by (simp add: take_Cons')
  show ?thesis
    using ts ne
    by (simp add: MAX_CHARS_speech_def is_sentence_end_def js_def nth_append take_Cons'
        drop_Cons')
qed

section \<open>Voice selection\<close>

lemma voiceId_mapped:
  "voiceId (js ''Hindi'') = JString (js ''pNInz6obpgDQGcFmaJgB'')"
  "voiceId (js ''Telugu'') = JString (js ''pNInz6obpgDQGcFmaJgB'')"
  "voiceId (js ''Spanish'') = JString (js ''EXAVITQu4vr4xnSDxMaL'')"
  "voiceId (js ''French'') = JString (js ''EXAVITQu4vr4xnSDxMaL'')"
  "voiceId (js ''Chinese'') = JString (js ''EXAVITQu4vr4xnSDxMaL'')"
  by (simp_all add: voiceId_def property_read_def voiceMap_def truthy_def js_def)

lemma voiceId_unmapped:
  assumes "language \<notin> fst ` set voiceMap" "language \<notin> set object_prototype_keys"
  shows "voiceId language = JString DEFAULT_VOICE"
proof -
  from assms(1) have "map_of voiceMap language = None"
    by (simp add: map_of_eq_None_iff)
  with assms(2) show ?thesis
    by (simp add: voiceId_def property_read_def truthy_def)
qed

text \<open>
  Claim C10 says that every language string without an entry in the voice map gets the
  default voice. The five mapped languages get their voice (\<open>voiceId_mapped\<close>) and a
  string that names no property at all gets the default (\<open>voiceId_unmapped\<close>), but
  the string \<open>constructor\<close> names a property that the object literal inherits: the read
  yields that built-in, which is truthy, so the default is not taken and the voice
  identifier is not a string.
\<close>

theorem voiceId_inherited_property:
  "voiceId (js ''constructor'') = JBuiltin (js ''constructor'') \<and>
   voiceId (js ''constructor'') \<noteq> JString DEFAULT_VOICE"
  by (simp add: voiceId_def property_read_def voiceMap_def truthy_def js_def
      object_prototype_keys_def)

section \<open>Text cleaning\<close>

lemma is_space_SPACE: "is_space SPACE"
  by (simp add: is_space_def SPACE_def)

lemma is_space_NEWLINE: "is_space NEWLINE" "NEWLINE \<noteq> SPACE"
  by (simp_all add: is_space_def SPACE_def NEWLINE_def)

lemma space_not_end: "is_space c \<Longrightarrow> \<not> is_sentence_end c"
  by (auto simp: is_space_def is_sentence_end_def js_def)

lemma is_allowed_SPACE: "is_allowed SPACE"
  by (simp add: is_allowed_def is_space_SPACE)

lemma sb_nonspace: "\<not> is_space c \<Longrightarrow> strip_before_end (c # cs) = c # strip_before_end cs"
  by simp

lemma sb_space_last: "is_space c \<Longrightarrow> strip_before_end [c] = [c]"
  by simp

lemma sb_space_next:
  "is_space c \<Longrightarrow> \<not> is_space d \<Longrightarrow>
   strip_before_end (c # d # r) =
     (if is_sentence_end d then d # strip_before_end r else c # d # strip_before_end r)"
  by simp

lemma sa_nonend: "\<not> is_sentence_end c \<Longrightarrow> space_after_end (c # cs) = c # space_after_end cs"
  by simp

lemma sa_end:
  "is_sentence_end c \<Longrightarrow>
   space_after_end (c # cs) = c # SPACE # space_after_end (dropWhile is_space cs)"
  by simp

lemma fix_nil: "fix_spacing [] = []"
  by (simp add: fix_spacing_def)

lemma fix_other:
  "\<not> is_space c \<Longrightarrow> \<not> is_sentence_end c \<Longrightarrow> fix_spacing (c # cs) = c # fix_spacing cs"
  by (simp add: fix_spacing_def)

lemma fix_space_last: "is_space c \<Longrightarrow> fix_spacing [c] = [c]"
  by (simp add: fix_spacing_def space_not_end)

lemma fix_space:
  "is_space c \<Longrightarrow> \<not> is_space d \<Longrightarrow>
   fix_spacing (c # d # r) = (if is_sentence_end d then fix_spacing (d # r) else c # fix_spacing (d # r))"
  by (simp add: fix_spacing_def space_not_end)

lemma fix_end_last: "is_sentence_end p \<Longrightarrow> fix_spacing [p] = [p, SPACE]"
  by (auto simp: fix_spacing_def dest: space_not_end)

lemma fix_end_other:
  "is_sentence_end p \<Longrightarrow> \<not> is_space d \<Longrightarrow>
   fix_spacing (p # d # r) = p # SPACE # fix_spacing (d # r)"
  by (auto simp: fix_spacing_def dest: space_not_end)

lemma fix_end_space_last:
  "is_sentence_end p \<Longrightarrow> is_space d \<Longrightarrow> fix_spacing [p, d] = [p, SPACE]"
  by (auto simp: fix_spacing_def dest: space_not_end)

lemma fix_end_space:
  "is_sentence_end p \<Longrightarrow> is_space d \<Longrightarrow> \<not> is_space e \<Longrightarrow>
   fix_spacing (p # d # e # r) = p # SPACE # fix_spacing (e # r)"
  by (auto simp: fix_spacing_def dest: space_not_end)

lemma no_double_space_Cons:
  "no_double_space (c # cs) \<longleftrightarrow>
     (cs = [] \<or> \<not> (is_space c \<and> is_space (hd cs))) \<and> no_double_space cs"
  by (cases cs) (auto simp: no_double_space_def)

lemma no_double_space_tl: "no_double_space (c # cs) \<Longrightarrow> no_double_space cs"
  by (simp add: no_double_space_Cons)

lemma spaced_induct [consumes 1, case_names Nil Other Space_last Space End_last End_other
    End_space_last End_space]:
  assumes nds: "no_double_space x"
    and nil: "P []"
    and other: "\<And>c cs. \<not> is_space c \<Longrightarrow> \<not> is_sentence_end c \<Longrightarrow> P cs \<Longrightarrow> P (c # cs)"
    and space_last: "\<And>c. is_space c \<Longrightarrow> P [c]"
    and space: "\<And>c d r. is_space c \<Longrightarrow> \<not> is_space d \<Longrightarrow> P (d # r) \<Longrightarrow> P (c # d # r)"
    and end_last: "\<And>p. is_sentence_end p \<Longrightarrow> P [p]"
    and end_other: "\<And>p d r. is_sentence_end p \<Longrightarrow> \<not> is_space d \<Longrightarrow> P (d # r) \<Longrightarrow> P (p # d # r)"
    and end_space_last: "\<And>p d. is_sentence_end p \<Longrightarrow> is_space d \<Longrightarrow> P [p, d]"
    and end_space: "\<And>p d e r. is_sentence_end p \<Longrightarrow> is_space d \<Longrightarrow> \<not> is_space e \<Longrightarrow>
        P (e # r) \<Longrightarrow> P (p # d # e # r)"
  shows "P x"
  using nds
proof (induction "length x" arbitrary: x rule: less_induct)
  case less
  show ?case
  proof (cases x)
    case Nil
    then show ?thesis using nil by simp
  next
    case (Cons c cs)
    note x = Cons
    have nds_cs: "no_double_space cs"
      using less.prems x no_double_space_tl by blast
    have P_cs: "P cs"
      using less.hyps [of cs] nds_cs x by simp
    show ?thesis
    proof (cases "is_space c")
      case True
      note c = True
      show ?thesis
      proof (cases cs)
        case Nil
        then show ?thesis using x c space_last by simp
      next
        case (Cons d r)
        with less.prems x c have "\<not> is_space d"
          by (simp add: no_double_space_Cons)
        then show ?thesis using x c Cons P_cs space by simp
      qed
    next
      case False
      note c = False
      show ?thesis
      proof (cases "is_sentence_end c")
        case False
        then show ?thesis using x c P_cs other by simp
      next
        case True
        note p = True
        show ?thesis
        proof (cases cs)
          case Nil
          then show ?thesis using x p end_last by simp
        next
          case (Cons d r)
          note cs = Cons
          show ?thesis
          proof (cases "is_space d")
            case False
            then show ?thesis using x p cs P_cs end_other by simp
          next
            case True
            note d = True
            show ?thesis
            proof (cases r)
              case Nil
              then show ?thesis using x p cs d end_space_last by simp
            next
              case (Cons e r')
              with nds_cs cs d have e: "\<not> is_space e"
                by (simp add: no_double_space_Cons)
              have "no_double_space (e # r')"
                using nds_cs cs Cons no_double_space_tl by blast
              then have "P (e # r')"
                using less.hyps [of "e # r'"] x cs Cons by simp
              then show ?thesis using x p cs d Cons e end_space by simp
            qed
          qed
        qed
      qed
    qed
  qed
qed

lemma fix_spacing_head:
  assumes "\<not> is_space c"
  shows "fix_spacing (c # cs) \<noteq> [] \<and> hd (fix_spacing (c # cs)) = c"
proof (cases "is_sentence_end c")
  case True
  then show ?thesis by (simp add: fix_spacing_def assms)
next
  case False
  then show ?thesis by (simp add: fix_spacing_def assms)
qed

lemma set_strip_before_end: "set (strip_before_end x) \<subseteq> set x"
proof (induction x rule: strip_before_end.induct)
  case 1
  then show ?case by simp
next
  case (2 c cs)
  show ?case
  proof (cases "is_space c")
    case False
    with 2 show ?thesis by auto
  next
    case True
    show ?thesis
    proof (cases "dropWhile is_space cs")
      case Nil
      then have "strip_before_end (c # cs) = c # strip_before_end cs"
        using True by (simp del: dropWhile_eq_Nil_conv)
      with True Nil 2(1) show ?thesis by auto
    next
      case (Cons p rest)
      then have sub: "set (p # rest) \<subseteq> set cs"
        by (metis set_dropWhileD subsetI)
      show ?thesis
      proof (cases "is_sentence_end p")
        case True
        then have "strip_before_end (c # cs) = p # strip_before_end rest"
          using \<open>is_space c\<close> Cons by simp
        with True \<open>is_space c\<close> Cons 2(2) sub show ?thesis by auto
      next
        case False
        then have "strip_before_end (c # cs) = c # strip_before_end cs"
          using \<open>is_space c\<close> Cons by simp
        with False \<open>is_space c\<close> Cons 2(3) show ?thesis by auto
      qed
    qed
  qed
qed

lemma set_space_after_end: "set (space_after_end x) \<subseteq> insert SPACE (set x)"
proof (induction x rule: space_after_end.induct)
  case 1
  then show ?case by simp
next
  case (2 c cs)
  show ?case
  proof (cases "is_sentence_end c")
    case True
    have "set (dropWhile is_space cs) \<subseteq> set cs"
      by (meson set_dropWhileD subsetI)
    with True 2(1) show ?thesis by auto
  next
    case False
    with 2(2) show ?thesis by auto
  qed
qed

lemma set_fix_spacing: "set (fix_spacing x) \<subseteq> insert SPACE (set x)"
  using set_space_after_end [of "strip_before_end x"] set_strip_before_end [of x]
  by (auto simp: fix_spacing_def)

lemma set_replace_runs: "set (replace_runs p q s) \<subseteq> insert q (set s)"
proof (induction p q s rule: replace_runs.induct)
  case (1 p r)
  then show ?case by simp
next
  case (2 p r c cs)
  have "set (dropWhile p cs) \<subseteq> set cs"
    by (meson set_dropWhileD subsetI)
  with 2 show ?case by (cases "p c") auto
qed

lemma set_trim: "set (trim s) \<subseteq> set s"
proof -
  have "set (dropWhile is_space (rev (dropWhile is_space s))) \<subseteq> set (rev (dropWhile is_space s))"
    by (meson set_dropWhileD subsetI)
  moreover have "set (dropWhile is_space s) \<subseteq> set s"
    by (meson set_dropWhileD subsetI)
  ultimately show ?thesis by (auto simp: trim_def)
qed

lemma end_spaced_Cons:
  "end_spaced (c # cs) \<longleftrightarrow>
     (cs = [] \<or> (is_sentence_end c \<longrightarrow> is_space (hd cs))) \<and> end_spaced cs"
  by (cases cs) (auto simp: end_spaced_def)

lemma sea_Cons:
  "space_end_after_end prev (c # cs) \<longleftrightarrow>
     (cs \<noteq> [] \<and> is_space c \<and> is_sentence_end (hd cs) \<longrightarrow> prev) \<and>
     space_end_after_end (is_sentence_end c) cs"
  by (cases cs) auto

lemma only_plain_spaces_Cons:
  "only_plain_spaces (c # cs) \<longleftrightarrow> (is_space c \<longrightarrow> c = SPACE) \<and> only_plain_spaces cs"
  by (simp add: only_plain_spaces_def)

lemma no_double_space_fix_spacing:
  "no_double_space x \<Longrightarrow> no_double_space (fix_spacing x)"
proof (induction x rule: spaced_induct)
  case Nil
  show ?case by (simp add: fix_nil no_double_space_def)
next
  case (Other c cs)
  then show ?case by (simp add: fix_other no_double_space_Cons)
next
  case (Space_last c)
  then show ?case by (simp add: fix_space_last no_double_space_Cons no_double_space_def)
next
  case (Space c d r)
  then show ?case using fix_spacing_head [of d r]
    by (simp add: fix_space no_double_space_Cons)
next
  case (End_last p)
  then show ?case
    by (auto simp: fix_end_last no_double_space_def dest: space_not_end)
next
  case (End_other p d r)
  then show ?case using fix_spacing_head [of d r]
    by (auto simp: fix_end_other no_double_space_Cons dest: space_not_end)
next
  case (End_space_last p d)
  then show ?case
    by (auto simp: fix_end_space_last no_double_space_def dest: space_not_end)
next
  case (End_space p d e r)
  then show ?case using fix_spacing_head [of e r]
    by (auto simp: fix_end_space no_double_space_Cons dest: space_not_end)
qed

lemma end_spaced_fix_spacing:
  "no_double_space x \<Longrightarrow> end_spaced (fix_spacing x)"
proof (induction x rule: spaced_induct)
  case Nil
  show ?case by (simp add: fix_nil end_spaced_def)
next
  case (Other c cs)
  then show ?case by (simp add: fix_other end_spaced_Cons)
next
  case (Space_last c)
  then show ?case by (simp add: fix_space_last end_spaced_def)
next
  case (Space c d r)
  then show ?case
    by (auto simp: fix_space end_spaced_Cons dest: space_not_end)
next
  case (End_last p)
  then show ?case
    by (simp add: fix_end_last end_spaced_def is_space_SPACE)
next
  case (End_other p d r)
  then show ?case using space_not_end [OF is_space_SPACE]
    by (simp add: fix_end_other end_spaced_Cons is_space_SPACE)
next
  case (End_space_last p d)
  then show ?case
    by (simp add: fix_end_space_last end_spaced_def is_space_SPACE)
next
  case (End_space p d e r)
  then show ?case using space_not_end [OF is_space_SPACE]
    by (simp add: fix_end_space end_spaced_Cons is_space_SPACE)
qed

lemma sea_fix_spacing:
  "no_double_space x \<Longrightarrow> space_end_after_end False (fix_spacing x)"
proof (induction x rule: spaced_induct)
  case Nil
  show ?case by (simp add: fix_nil)
next
  case (Other c cs)
  then show ?case by (simp add: fix_other sea_Cons)
next
  case (Space_last c)
  then show ?case by (simp add: fix_space_last)
next
  case (Space c d r)
  then show ?case using fix_spacing_head [of d r]
    by (auto simp: fix_space sea_Cons dest: space_not_end)
next
  case (End_last p)
  then show ?case
    by (auto simp: fix_end_last dest: space_not_end)
next
  case (End_other p d r)
  then show ?case using space_not_end [OF is_space_SPACE]
    by (auto simp: fix_end_other sea_Cons dest: space_not_end)
next
  case (End_space_last p d)
  then show ?case
    by (auto simp: fix_end_space_last dest: space_not_end)
next
  case (End_space p d e r)
  then show ?case using space_not_end [OF is_space_SPACE]
    by (auto simp: fix_end_space sea_Cons dest: space_not_end)
qed

lemma only_plain_spaces_fix_spacing:
  "only_plain_spaces x \<Longrightarrow> only_plain_spaces (fix_spacing x)"
  using set_fix_spacing [of x] by (auto simp: only_plain_spaces_def)

text \<open>A normal form is a fixed point of the spacing step, up to one trailing space.\<close>

lemma fix_spacing_fixed:
  assumes "no_double_space r" "only_plain_spaces r" "end_spaced r"
    "space_end_after_end False r" "r \<noteq> [] \<longrightarrow> \<not> is_space (last r)"
  shows "fix_spacing r = r @ (if r \<noteq> [] \<and> is_sentence_end (last r) then [SPACE] else [])"
  using assms
proof (induction r rule: spaced_induct)
  case Nil
  show ?case by (simp add: fix_nil)
next
  case (Other c cs)
  then show ?case
    by (cases "cs = []")
      (auto simp: fix_other fix_nil only_plain_spaces_Cons end_spaced_Cons sea_Cons)
next
  case (Space_last c)
  then show ?case by simp
next
  case (Space c d r)
  then show ?case
    by (auto simp: fix_space only_plain_spaces_Cons end_spaced_Cons sea_Cons
        dest: space_not_end)
next
  case (End_last p)
  then show ?case by (simp add: fix_end_last)
next
  case (End_other p d r)
  then show ?case by (simp add: end_spaced_Cons)
next
  case (End_space_last p d)
  then show ?case by simp
next
  case (End_space p d e r)
  then show ?case
    by (auto simp: fix_end_space only_plain_spaces_Cons end_spaced_Cons sea_Cons
        dest: space_not_end)
qed

lemma rev_split: "rev (dropWhile P (rev d)) @ rev (takeWhile P (rev d)) = d"
proof -
  have "rev (takeWhile P (rev d) @ dropWhile P (rev d)) = rev (rev d)"
    by (simp only: takeWhile_dropWhile_id)
  then show ?thesis by (simp only: rev_append rev_rev_ident)
qed

lemma trim_decomp:
  "\<exists>pre post. y = pre @ trim y @ post \<and> (\<forall>c \<in> set pre. is_space c) \<and> (\<forall>c \<in> set post. is_space c)"
proof -
  let ?d = "dropWhile is_space y"
  have 1: "y = takeWhile is_space y @ ?d" by simp
  have 2: "?d = trim y @ rev (takeWhile is_space (rev ?d))"
    unfolding trim_def by (rule rev_split [symmetric])
  have 3: "\<forall>c \<in> set (takeWhile is_space y). is_space c"
    by (meson set_takeWhileD)
  have 4: "\<forall>c \<in> set (rev (takeWhile is_space (rev ?d))). is_space c"
    by (metis set_rev set_takeWhileD)
  from 1 2 have "y = takeWhile is_space y @ trim y @ rev (takeWhile is_space (rev ?d))"
    by metis
  with 3 4 show ?thesis by blast
qed

lemma trim_ends: "trim y = [] \<or> (\<not> is_space (hd (trim y)) \<and> \<not> is_space (last (trim y)))"
proof (cases "trim y = []")
  case True
  then show ?thesis by simp
next
  case False
  let ?d = "dropWhile is_space y"
  let ?e = "dropWhile is_space (rev ?d)"
  from False have e: "?e \<noteq> []" by (simp add: trim_def)
  then have "\<not> is_space (hd ?e)" by (rule hd_dropWhile)
  moreover have "last (trim y) = hd ?e" using e by (simp add: trim_def last_rev)
  ultimately have l: "\<not> is_space (last (trim y))" by simp
  have d: "?d \<noteq> []"
  proof
    assume "?d = []"
    then have "?e = []" by (simp only: rev.simps dropWhile.simps)
    with e show False ..
  qed
  then have hd: "\<not> is_space (hd ?d)" by (rule hd_dropWhile)
  have "?d = trim y @ rev (takeWhile is_space (rev ?d))"
    unfolding trim_def by (rule rev_split [symmetric])
  with False have "hd ?d = hd (trim y)" by (metis hd_append2)
  with hd l show ?thesis by simp
qed

lemma trim_id:
  assumes "r = [] \<or> (\<not> is_space (hd r) \<and> \<not> is_space (last r))"
  shows "trim r = r"
proof (cases "r = []")
  case True
  then show ?thesis by (simp add: trim_def)
next
  case False
  with assms have h: "\<not> is_space (hd r)" and l: "\<not> is_space (last r)" by auto
  from False h have 1: "dropWhile is_space r = r" by (cases r) auto
  from False l have "dropWhile is_space (rev r) = rev r"
    by (cases "rev r") (auto simp: last_rev hd_rev dest: arg_cong [where f = hd])
  with 1 show ?thesis by (simp add: trim_def)
qed

lemma trim_snoc_space:
  assumes "is_space c"
  shows "trim (r @ [c]) = trim r"
proof (cases "\<forall>x \<in> set r. is_space x")
  case True
  then have "dropWhile is_space r = []" by simp
  moreover from True assms have "dropWhile is_space (r @ [c]) = []" by simp
  ultimately show ?thesis by (simp only: trim_def)
next
  case False
  then have "dropWhile is_space (r @ [c]) = dropWhile is_space r @ [c]"
    by (auto simp: dropWhile_append1)
  with assms show ?thesis by (simp add: trim_def)
qed

lemma sea_prefix: "space_end_after_end prev (a @ b) \<Longrightarrow> space_end_after_end prev a"
proof (induction a arbitrary: prev)
  case Nil
  show ?case by simp
next
  case (Cons c a)
  then show ?case
    by (cases a) (auto simp: sea_Cons)
qed

lemma sea_drop_spaces:
  "\<forall>c \<in> set a. is_space c \<Longrightarrow> space_end_after_end False (a @ b) \<Longrightarrow>
   space_end_after_end False b"
proof (induction a)
  case Nil
  then show ?case by simp
next
  case (Cons c a)
  then show ?case
    by (auto simp: sea_Cons dest: space_not_end)
qed

lemma no_double_space_infix:
  "no_double_space (a @ m @ b) \<Longrightarrow> no_double_space m"
  by (simp add: no_double_space_def successively_append_iff)

lemma end_spaced_infix: "end_spaced (a @ m @ b) \<Longrightarrow> end_spaced m"
  by (simp add: end_spaced_def successively_append_iff)

lemma sea_infix:
  assumes "space_end_after_end False (a @ m @ b)" "\<forall>c \<in> set a. is_space c"
  shows "space_end_after_end False m"
proof -
  from assms have "space_end_after_end False (m @ b)"
    using sea_drop_spaces by blast
  then show ?thesis by (rule sea_prefix)
qed

lemma replace_runs_head:
  "\<not> p c \<Longrightarrow> replace_runs p q (c # cs) = c # replace_runs p q cs"
  by simp

lemma replace_runs_space_members:
  "c \<in> set (replace_runs is_space SPACE s) \<Longrightarrow> is_space c \<Longrightarrow> c = SPACE"
proof (induction is_space SPACE s rule: replace_runs.induct)
  case 1
  then show ?case by simp
next
  case (2 d cs)
  then show ?case by (cases "is_space d") auto
qed

lemma only_plain_spaces_replace_runs: "only_plain_spaces (replace_runs is_space SPACE s)"
  using replace_runs_space_members by (auto simp: only_plain_spaces_def)

lemma no_double_space_replace_runs: "no_double_space (replace_runs is_space SPACE s)"
proof (induction is_space SPACE s rule: replace_runs.induct)
  case 1
  show ?case by (simp add: no_double_space_def)
next
  case (2 c cs)
  show ?case
  proof (cases "is_space c")
    case False
    with 2 show ?thesis by (simp add: no_double_space_Cons)
  next
    case True
    let ?d = "dropWhile is_space cs"
    have ih: "no_double_space (replace_runs is_space SPACE ?d)"
      using 2(1) True by simp
    have "replace_runs is_space SPACE ?d = [] \<or>
        \<not> is_space (hd (replace_runs is_space SPACE ?d))"
    proof (cases ?d)
      case Nil
      then show ?thesis by (simp del: dropWhile_eq_Nil_conv)
    next
      case (Cons e r)
      then have "\<not> is_space e" by (metis hd_dropWhile list.sel(1) list.distinct(1))
      with Cons show ?thesis by simp
    qed
    with True ih show ?thesis by (auto simp: no_double_space_Cons)
  qed
qed

lemma replace_runs_single_spaced:
  "only_plain_spaces x \<Longrightarrow> no_double_space x \<Longrightarrow> replace_runs is_space SPACE x = x"
proof (induction x)
  case Nil
  show ?case by simp
next
  case (Cons c cs)
  then have ih: "replace_runs is_space SPACE cs = cs"
    by (simp add: only_plain_spaces_Cons no_double_space_Cons)
  show ?case
  proof (cases "is_space c")
    case False
    with ih show ?thesis by simp
  next
    case True
    with Cons.prems have c: "c = SPACE" by (simp add: only_plain_spaces_Cons)
    from True Cons.prems have "cs = [] \<or> \<not> is_space (hd cs)"
      by (simp add: no_double_space_Cons)
    then have "dropWhile is_space cs = cs" by (cases cs) auto
    with True c ih show ?thesis by simp
  qed
qed

lemma replace_runs_absent: "\<forall>c \<in> set x. \<not> p c \<Longrightarrow> replace_runs p q x = x"
  by (induction x) auto

lemma replace_special_allowed: "all_allowed x \<Longrightarrow> replace_special x = x"
  by (simp add: all_allowed_def replace_special_def map_idI)

lemma no_newline: "only_plain_spaces x \<Longrightarrow> \<forall>c \<in> set x. \<not> c = NEWLINE"
  using is_space_NEWLINE by (auto simp: only_plain_spaces_def)

text \<open>The result of cleaning a single-spaced, allowed text, and its shape.\<close>

lemma clean_single_spaced:
  assumes "only_plain_spaces x" "no_double_space x" "all_allowed x"
  shows "cleanAndProcessText x = trim (fix_spacing x)"
  using assms
  by (simp add: cleanAndProcessText_def replace_runs_single_spaced
      replace_runs_absent [OF no_newline] replace_special_allowed)

lemma trim_fix_spacing_shape:
  assumes "only_plain_spaces x" "no_double_space x"
  defines "r \<equiv> trim (fix_spacing x)"
  shows "only_plain_spaces r \<and> no_double_space r \<and> end_spaced r \<and>
         space_end_after_end False r \<and> (r = [] \<or> (\<not> is_space (hd r) \<and> \<not> is_space (last r)))"
proof -
  let ?y = "fix_spacing x"
  obtain pre post where d: "?y = pre @ r @ post" and pre: "\<forall>c \<in> set pre. is_space c"
    using trim_decomp [of ?y] r_def by blast
  have "only_plain_spaces ?y" using assms(1) by (rule only_plain_spaces_fix_spacing)
  then have 1: "only_plain_spaces r"
    using set_trim [of ?y] by (auto simp: only_plain_spaces_def r_def)
  have "no_double_space ?y" using assms(2) by (rule no_double_space_fix_spacing)
  with d have 2: "no_double_space r" using no_double_space_infix by metis
  have "end_spaced ?y" using assms(2) by (rule end_spaced_fix_spacing)
  with d have 3: "end_spaced r" using end_spaced_infix by metis
  have "space_end_after_end False ?y" using assms(2) by (rule sea_fix_spacing)
  with d pre have 4: "space_end_after_end False r" using sea_infix by metis
  from 1 2 3 4 trim_ends [of ?y] show ?thesis by (simp add: r_def)
qed

lemma trim_fix_spacing_idem:
  assumes "only_plain_spaces x" "no_double_space x"
  shows "trim (fix_spacing (trim (fix_spacing x))) = trim (fix_spacing x)"
proof -
  let ?r = "trim (fix_spacing x)"
  from trim_fix_spacing_shape [OF assms]
  have s: "only_plain_spaces ?r" "no_double_space ?r" "end_spaced ?r"
    "space_end_after_end False ?r"
    and ends: "?r = [] \<or> (\<not> is_space (hd ?r) \<and> \<not> is_space (last ?r))"
    by simp_all
  from ends have "?r \<noteq> [] \<longrightarrow> \<not> is_space (last ?r)" by blast
  then have "fix_spacing ?r =
      ?r @ (if ?r \<noteq> [] \<and> is_sentence_end (last ?r) then [SPACE] else [])"
    by (rule fix_spacing_fixed [OF s(2) s(1) s(3) s(4)])
  then have "trim (fix_spacing ?r) = trim ?r"
    by (simp add: trim_snoc_space is_space_SPACE)
  also have "\<dots> = ?r" using ends by (rule trim_id)
  finally show ?thesis .
qed

lemma all_allowed_clean_stage:
  assumes "all_allowed s"
  shows "all_allowed (replace_runs is_space SPACE s)"
  using assms set_replace_runs [of is_space SPACE s] is_allowed_SPACE
  by (auto simp: all_allowed_def)

lemma all_allowed_trim_fix:
  assumes "all_allowed x"
  shows "all_allowed (trim (fix_spacing x))"
  using assms set_trim [of "fix_spacing x"] set_fix_spacing [of x] is_allowed_SPACE
  by (auto simp: all_allowed_def)


text \<open>
  Claim C2, as amended. On every input that consists of allow-listed characters only
  (word characters, whitespace and the punctuation of the character class),
  \<open>cleanAndProcessText\<close> is idempotent: cleaning the cleaned text changes nothing.
\<close>

theorem clean_idempotent_on_allowed:
  assumes "\<forall>c \<in> set s. is_allowed c"
  shows "cleanAndProcessText (cleanAndProcessText s) = cleanAndProcessText s"
proof -
  let ?x = "replace_runs is_space SPACE s"
  from assms have a: "all_allowed s" by (simp add: all_allowed_def)
  have x: "only_plain_spaces ?x" "no_double_space ?x" "all_allowed ?x"
    by (rule only_plain_spaces_replace_runs, rule no_double_space_replace_runs,
        rule all_allowed_clean_stage [OF a])
  have first: "cleanAndProcessText s = trim (fix_spacing ?x)"
    using x by (simp add: cleanAndProcessText_def replace_runs_absent [OF no_newline]
        replace_special_allowed)
  let ?r = "trim (fix_spacing ?x)"
  have r: "only_plain_spaces ?r" "no_double_space ?r"
    using trim_fix_spacing_shape [OF x(1) x(2)] by simp_all
  have "all_allowed ?r" using x(3) by (rule all_allowed_trim_fix)
  with r have "cleanAndProcessText ?r = trim (fix_spacing ?r)"
    by (rule clean_single_spaced)
  also have "\<dots> = ?r" using x(1) x(2) by (rule trim_fix_spacing_idem)
  finally show ?thesis by (simp add: first)
qed

theorem clean_idempotent_on_allowed_witness:
  "all_allowed (js ''Hi .  there'') \<and>
   cleanAndProcessText (js ''Hi .  there'') = js ''Hi. there'' \<and>
   cleanAndProcessText (cleanAndProcessText (js ''Hi .  there'')) =
     cleanAndProcessText (js ''Hi .  there'')"
proof -
  have a: "\<forall>c \<in> set (js ''Hi .  there''). is_allowed c"
    by (simp add: js_def is_allowed_def is_word_def is_space_def)
  have "cleanAndProcessText (js ''Hi .  there'') = js ''Hi. there''"
    by (simp add: cleanAndProcessText_def fix_spacing_def js_def replace_special_def trim_def
        is_space_def is_allowed_def is_word_def is_sentence_end_def SPACE_def NEWLINE_def)
  with a clean_idempotent_on_allowed [OF a] show ?thesis
    by (simp add: all_allowed_def)
qed


text \<open>
  The claim as stated, for every input, fails. The whitespace runs are collapsed
  before the characters outside the allow-list are replaced by spaces, so two such
  characters in a row leave two spaces, which a second pass collapses.
\<close>

theorem clean_not_idempotent_counterexample:
  "cleanAndProcessText (js ''a@@b'') = js ''a  b'' \<and>
   cleanAndProcessText (cleanAndProcessText (js ''a@@b'')) = js ''a b'' \<and>
   cleanAndProcessText (cleanAndProcessText (js ''a@@b'')) \<noteq> cleanAndProcessText (js ''a@@b'')"
proof -
  have 1: "cleanAndProcessText (js ''a@@b'') = js ''a  b''"
    by (simp add: cleanAndProcessText_def fix_spacing_def js_def replace_special_def trim_def
        is_space_def is_allowed_def is_word_def is_sentence_end_def SPACE_def NEWLINE_def)
  have 2: "cleanAndProcessText (js ''a  b'') = js ''a b''"
    by (simp add: cleanAndProcessText_def fix_spacing_def js_def replace_special_def trim_def
        is_space_def is_allowed_def is_word_def is_sentence_end_def SPACE_def NEWLINE_def)
  have 3: "js ''a b'' \<noteq> js ''a  b''"
    by (simp add: js_def)
  from 1 2 3 show ?thesis by simp
qed

section \<open>The page cap of the text-layer extraction\<close>

text \<open>The accumulator and the current page after any run of events.\<close>

lemma acc_settle [simp]: "acc_text (settle v st) = acc_text st"
  "currentPage (settle v st) = currentPage st"
  by (simp_all add: settle_def split: option.splits)


lemma render_append: "render_tokens (a @ b) = render_tokens a @ render_tokens b"
  by (simp add: render_tokens_def)



lemma settled_add_text [simp]: "settled (add_text item st) = settled st"
  by (simp add: add_text_def split: option.splits)











section \<open>The OCR fallback\<close>



text \<open>A path whose unlink throws is never removed by the loop over the pages.\<close>

lemma ocr_page_keeps:
  assumes "p \<in> fs" "unlink_error env p \<noteq> None"
  shows "p \<in> snd (ocr_page env n (t, fs))"
  using assms
  by (auto simp: ocr_page_def unlinkSync_def Let_def
      split: convert_outcome.splits option.splits recognize_outcome.splits sum.splits)

lemma ocr_pages_keep:
  assumes "p \<in> fs" "unlink_error env p \<noteq> None"
  shows "p \<in> snd (fold (ocr_page env) ns (t, fs))"
  using assms(1)
proof (induction ns arbitrary: t fs)
  case Nil
  then show ?case by simp
next
  case (Cons n ns)
  obtain t' fs' where st: "ocr_page env n (t, fs) = (t', fs')" by fastforce
  with Cons.prems assms(2) have "p \<in> fs'"
    using ocr_page_keeps [of p fs env n t] by simp
  with st Cons.IH [of fs' t'] show ?case by simp
qed


lemma ocr_try_failed:
  "write_result env \<noteq> Written \<or> fromPath_throws env \<Longrightarrow>
   fst (ocr_try env fs filename) = Inl OcrError"
  by (auto simp: ocr_try_def Let_def split: write_outcome.splits)


text \<open>Whether the temporary path exists when \<open>finally\<close> is reached, if its unlink throws.\<close>

lemma ocr_try_exists:
  assumes "unlink_error env (tempPdfPath env filename) \<noteq> None"
  shows "tempPdfPath env filename \<in> snd (ocr_try env fs filename) \<longleftrightarrow>
     tempPdfPath env filename \<in> fs \<or> write_result env \<noteq> WriteFailedNoFile"
proof (cases "write_result env")
  case Written
  let ?p = "tempPdfPath env filename"
  obtain t fs2 where f: "fold (ocr_page env) [1, 2, 3] ([], insert ?p fs) = (t, fs2)"
    by fastforce
  have "?p \<in> snd (fold (ocr_page env) [1, 2, 3] ([], insert ?p fs))"
    by (rule ocr_pages_keep) (simp_all add: assms)
  with f have "?p \<in> fs2" by simp
  with Written f show ?thesis by (simp add: ocr_try_def Let_def)
next
  case WriteFailedNoFile
  then show ?thesis by (simp add: ocr_try_def)
next
  case WriteFailedPartialFile
  then show ?thesis by (simp add: ocr_try_def)
qed

text \<open>The three ways the function ends once the directory step is passed.\<close>

lemma extract_mkdir_fails:
  assumes "tempDir env \<notin> fs" "mkdir_error env \<noteq> None"
  shows "extractTextWithOCR env fs filename = (Inl (the (mkdir_error env)), fs)"
  using assms by (simp add: extractTextWithOCR_def)

lemma final_unlink_throws_iff:
  assumes "tempDir env \<in> fs \<or> mkdir_error env = None"
  shows "final_unlink_throws env fs filename \<longleftrightarrow>
     unlink_error env (tempPdfPath env filename) \<noteq> None \<and>
     tempPdfPath env filename \<in>
       snd (ocr_try env (if tempDir env \<notin> fs then insert (tempDir env) fs else fs) filename)"
proof (cases "unlink_error env (tempPdfPath env filename) = None")
  case True
  then show ?thesis by (simp add: final_unlink_throws_def)
next
  case False
  then show ?thesis
    using ocr_try_exists [of env filename "if tempDir env \<notin> fs then insert (tempDir env) fs else fs"]
    by (auto simp: final_unlink_throws_def)
qed

lemma extract_unlink_throws:
  assumes ok: "tempDir env \<in> fs \<or> mkdir_error env = None"
    and thr: "final_unlink_throws env fs filename"
    and e: "unlink_error env (tempPdfPath env filename) = Some e"
  shows "fst (extractTextWithOCR env fs filename) = Inl e"
    "tempPdfPath env filename \<in> snd (extractTextWithOCR env fs filename)"
proof -
  let ?fs0 = "if tempDir env \<notin> fs then insert (tempDir env) fs else fs"
  obtain r fs1 where t: "ocr_try env ?fs0 filename = (r, fs1)" by fastforce
  from thr have "tempPdfPath env filename \<in> snd (ocr_try env ?fs0 filename)"
    using final_unlink_throws_iff [OF ok] by simp
  with t have "tempPdfPath env filename \<in> fs1" by simp
  with ok t e show "fst (extractTextWithOCR env fs filename) = Inl e"
    "tempPdfPath env filename \<in> snd (extractTextWithOCR env fs filename)"
    by (auto simp: extractTextWithOCR_def Let_def unlinkSync_def)
qed

lemma extract_unlink_ok:
  assumes ok: "tempDir env \<in> fs \<or> mkdir_error env = None"
    and nothr: "\<not> final_unlink_throws env fs filename"
  shows "fst (extractTextWithOCR env fs filename) =
      fst (ocr_try env (if tempDir env \<notin> fs then insert (tempDir env) fs else fs) filename)"
    "tempPdfPath env filename \<notin> snd (extractTextWithOCR env fs filename)"
proof -
  let ?fs0 = "if tempDir env \<notin> fs then insert (tempDir env) fs else fs"
  obtain r fs1 where t: "ocr_try env ?fs0 filename = (r, fs1)" by fastforce
  from nothr have c: "unlink_error env (tempPdfPath env filename) = None \<or>
      tempPdfPath env filename \<notin> fs1"
    using final_unlink_throws_iff [OF ok, of filename] t by auto
  with ok t show "fst (extractTextWithOCR env fs filename) = fst (ocr_try env ?fs0 filename)"
    by (auto simp: extractTextWithOCR_def Let_def unlinkSync_def split: option.splits)
  from c ok t show "tempPdfPath env filename \<notin> snd (extractTextWithOCR env fs filename)"
    by (auto simp: extractTextWithOCR_def Let_def unlinkSync_def split: option.splits)
qed




lemma extract_exists_iff:
  assumes ok: "tempDir env \<in> fs \<or> mkdir_error env = None"
  shows "tempPdfPath env filename \<in> snd (extractTextWithOCR env fs filename) \<longleftrightarrow>
     final_unlink_throws env fs filename"
proof (cases "final_unlink_throws env fs filename")
  case True
  then obtain u where "unlink_error env (tempPdfPath env filename) = Some u"
    by (auto simp: final_unlink_throws_def)
  with True show ?thesis using extract_unlink_throws(2) [OF ok True] by simp
next
  case False
  then show ?thesis using extract_unlink_ok(2) [OF ok False] by simp
qed

text \<open>
  Claim C8, as amended. Once the directory step is passed, every exit of the OCR
  fallback goes through \<open>finally\<close>. The temporary path is on disk afterwards exactly
  when it existed at that point and \<open>unlinkSync\<close> threw on it, and then the error of
  \<open>unlinkSync\<close> is what leaves the function, in place of the text or of the OCR error.
  In every other case the path is not on disk afterwards, also when the write failed
  and left a partial file. A throw of \<open>mkdirSync\<close> before the \<open>try\<close> does not reach
  \<open>finally\<close> and leaves the file system as it was.
\<close>

theorem temp_pdf_cleanup:
  "(tempDir env \<in> fs \<or> mkdir_error env = None \<longrightarrow>
      (tempPdfPath env filename \<in> snd (extractTextWithOCR env fs filename) \<longleftrightarrow>
         final_unlink_throws env fs filename) \<and>
      (final_unlink_throws env fs filename \<and>
       unlink_error env (tempPdfPath env filename) = Some e \<longrightarrow>
         fst (extractTextWithOCR env fs filename) = Inl e)) \<and>
   (tempDir env \<notin> fs \<and> mkdir_error env \<noteq> None \<longrightarrow>
      snd (extractTextWithOCR env fs filename) = fs)"
proof (intro conjI impI)
  assume "tempDir env \<in> fs \<or> mkdir_error env = None"
  then show "tempPdfPath env filename \<in> snd (extractTextWithOCR env fs filename) \<longleftrightarrow>
      final_unlink_throws env fs filename"
    by (rule extract_exists_iff)
next
  assume ok: "tempDir env \<in> fs \<or> mkdir_error env = None"
    and "final_unlink_throws env fs filename \<and>
      unlink_error env (tempPdfPath env filename) = Some e"
  then show "fst (extractTextWithOCR env fs filename) = Inl e"
    using extract_unlink_throws(1) [OF ok] by blast
next
  assume "tempDir env \<notin> fs \<and> mkdir_error env \<noteq> None"
  then show "snd (extractTextWithOCR env fs filename) = fs"
    by (simp add: extract_mkdir_fails)
qed

lemma sample_ocr_fields:
  "tempDir sample_ocr_env = js ''/app/temp''"
  "tempPdfPath sample_ocr_env f = js ''/app/temp/1700000000000-'' @ f"
  "mkdir_error sample_ocr_env = None" "write_result sample_ocr_env = Written"
  "\<not> fromPath_throws sample_ocr_env" "unlink_error sample_ocr_env p = None"
  "convert_page sample_ocr_env n = ConvertThrows"
  by (simp_all add: sample_ocr_env_def)

theorem temp_pdf_cleanup_witness:
  "\<not> final_unlink_throws sample_ocr_env {} (js ''a.pdf'') \<and>
   tempPdfPath sample_ocr_env (js ''a.pdf'') \<notin>
     snd (extractTextWithOCR sample_ocr_env {} (js ''a.pdf'')) \<and>
   tempPdfPath sample_ocr_env (js ''a.pdf'') \<notin>
     snd (extractTextWithOCR (sample_ocr_env\<lparr>write_result := WriteFailedPartialFile\<rparr>) {}
       (js ''a.pdf'')) \<and>
   final_unlink_throws locked_ocr_env {} (js ''a.pdf'') \<and>
   unlink_error locked_ocr_env (tempPdfPath locked_ocr_env (js ''a.pdf'')) = Some EPERM \<and>
   tempPdfPath locked_ocr_env (js ''a.pdf'') \<in>
     snd (extractTextWithOCR locked_ocr_env {} (js ''a.pdf'')) \<and>
   fst (extractTextWithOCR locked_ocr_env {} (js ''a.pdf'')) = Inl EPERM \<and>
   snd (extractTextWithOCR
     (sample_ocr_env\<lparr>mkdir_error := Some (JsError (js ''EACCES''))\<rparr>) {} (js ''a.pdf'')) = {}"
proof -
  let ?partial = "sample_ocr_env\<lparr>write_result := WriteFailedPartialFile\<rparr>"
  let ?nodir = "sample_ocr_env\<lparr>mkdir_error := Some (JsError (js ''EACCES''))\<rparr>"
  have a: "\<not> final_unlink_throws sample_ocr_env {} (js ''a.pdf'')"
    "\<not> final_unlink_throws ?partial {} (js ''a.pdf'')"
    by (simp_all add: final_unlink_throws_def sample_ocr_fields)
  have b: "final_unlink_throws locked_ocr_env {} (js ''a.pdf'')"
    "unlink_error locked_ocr_env (tempPdfPath locked_ocr_env (js ''a.pdf'')) = Some EPERM"
    by (simp_all add: final_unlink_throws_def locked_ocr_env_def sample_ocr_fields)
  have m: "mkdir_error sample_ocr_env = None" "mkdir_error ?partial = None"
    "mkdir_error locked_ocr_env = None"
    by (simp_all add: locked_ocr_env_def sample_ocr_fields)
  have p: "tempPdfPath ?partial = tempPdfPath sample_ocr_env" by simp
  have n: "tempDir ?nodir \<notin> {} \<and> mkdir_error ?nodir \<noteq> None" by simp
  show ?thesis
    using temp_pdf_cleanup [of sample_ocr_env "{}" "js ''a.pdf''"]
      temp_pdf_cleanup [of ?partial "{}" "js ''a.pdf''"]
      temp_pdf_cleanup [of locked_ocr_env "{}" "js ''a.pdf''" EPERM]
      temp_pdf_cleanup [of ?nodir "{}" "js ''a.pdf''"] a b m p n
    by simp
qed

text \<open>
  The claim as stated, that no exit path leaves the temporary path on disk, fails where
  \<open>unlinkSync\<close> throws in \<open>finally\<close>. For an upload named \<open>x/..\<close> the temporary path is
  the temporary directory: the write fails, the \<open>catch\<close> block throws the OCR error, and
  \<open>unlinkSync\<close> of the directory throws in turn; its error leaves the function and the
  path is still there. The same holds for a temporary file that was written and cannot
  be deleted.
\<close>

theorem temp_pdf_left_on_disk_counterexample:
  "tempDir traversal_ocr_env \<in> {js ''/app/temp''} \<and>
   fst (extractTextWithOCR traversal_ocr_env {js ''/app/temp''} (js ''x/..'')) = Inl EISDIR \<and>
   tempPdfPath traversal_ocr_env (js ''x/..'') \<in>
     snd (extractTextWithOCR traversal_ocr_env {js ''/app/temp''} (js ''x/..'')) \<and>
   write_result locked_ocr_env = Written \<and>
   fst (extractTextWithOCR locked_ocr_env {js ''/app/temp''} (js ''a.pdf'')) = Inl EPERM \<and>
   tempPdfPath locked_ocr_env (js ''a.pdf'') \<in>
     snd (extractTextWithOCR locked_ocr_env {js ''/app/temp''} (js ''a.pdf''))"
proof -
  have t: "tempDir traversal_ocr_env = js ''/app/temp''"
    "tempPdfPath traversal_ocr_env (js ''x/..'') = js ''/app/temp''"
    "write_result traversal_ocr_env = WriteFailedNoFile"
    "unlink_error traversal_ocr_env (js ''/app/temp'') = Some EISDIR"
    by (simp_all add: traversal_ocr_env_def sample_ocr_fields)
  have 1: "extractTextWithOCR traversal_ocr_env {js ''/app/temp''} (js ''x/..'') =
      (Inl EISDIR, {js ''/app/temp''})"
    by (simp add: extractTextWithOCR_def ocr_try_def unlinkSync_def t)
  have l: "tempDir locked_ocr_env = js ''/app/temp''"
    "tempPdfPath locked_ocr_env (js ''a.pdf'') = js ''/app/temp/1700000000000-'' @ js ''a.pdf''"
    "write_result locked_ocr_env = Written" "\<not> fromPath_throws locked_ocr_env"
    "unlink_error locked_ocr_env p = Some EPERM"
    "convert_page locked_ocr_env n = ConvertThrows"
    for p n
    by (simp_all add: locked_ocr_env_def sample_ocr_fields)
  have 2: "extractTextWithOCR locked_ocr_env {js ''/app/temp''} (js ''a.pdf'') =
      (Inl EPERM, {js ''/app/temp/1700000000000-'' @ js ''a.pdf'', js ''/app/temp''})"
    by (simp add: extractTextWithOCR_def ocr_try_def ocr_page_def unlinkSync_def l)
  show ?thesis
    unfolding 1 2 by (simp add: t l)
qed

section \<open>The extraction endpoint\<close>

lemma calls_store_and_respond [simp]:
  "calls (store_and_respond db fs file pages log t) = log"
  by (simp add: store_and_respond_def Let_def split: prod.splits)

lemma resp_store_and_respond:
  "\<exists>r. resp (store_and_respond db fs file pages log t) = Some r \<and>
       map_of (body r) ''cached'' = Some (JsonBool False)"
  by (simp add: store_and_respond_def Let_def split: prod.splits)

lemma calls_extract_fresh:
  "calls (extract_fresh env db fs file) =
     (if length (file_bytes file) = 0 \<or> take 4 (file_bytes file) \<noteq> PDF_HEADER then []
      else (case settled (parse_run (parse_events env (file_bytes file))) of
              Some (Inr t) \<Rightarrow>
                if length (trim t) < OCR_THRESHOLD
                then [TextLayerCall (Some (Inr t)),
                      OcrCall (fst (extractTextWithOCR (ocr env) fs (file_name file)))]
                else [TextLayerCall (Some (Inr t))]
            | other \<Rightarrow> [TextLayerCall other]))"
  by (simp add: extract_fresh_def Let_def split: option.splits sum.splits prod.splits)

lemma calls_POST:
  "calls (POST env db fs request) = [] \<or>
   (\<exists>file. request = Some file \<and> calls (POST env db fs request) = calls (extract_fresh env db fs file))"
  by (simp add: POST_def split: option.splits)

lemma ocr_iff_extract_fresh:
  "(TextLayerCall (Some (Inr t)) \<in> set (calls (extract_fresh env db fs file)) \<longrightarrow>
      ((\<exists>r. OcrCall r \<in> set (calls (extract_fresh env db fs file))) \<longleftrightarrow>
       length (trim t) < OCR_THRESHOLD)) \<and>
   ((\<exists>r. OcrCall r \<in> set (calls (extract_fresh env db fs file))) \<longrightarrow>
      (\<exists>t. TextLayerCall (Some (Inr t)) \<in> set (calls (extract_fresh env db fs file))))"
  by (auto simp: calls_extract_fresh split: option.splits sum.splits if_splits)

lemma fix_spacing_plain:
  "\<forall>c \<in> set x. \<not> is_space c \<and> \<not> is_sentence_end c \<Longrightarrow> fix_spacing x = x"
  by (induction x) (simp_all add: fix_nil fix_other)

lemma clean_plain:
  assumes "\<forall>c \<in> set x. \<not> is_space c \<and> \<not> is_sentence_end c \<and> is_allowed c"
  shows "cleanAndProcessText x = x"
proof -
  from assms have 1: "replace_runs is_space SPACE x = x"
    by (simp add: replace_runs_absent)
  from assms have "\<forall>c \<in> set x. \<not> c = NEWLINE"
    using is_space_NEWLINE by auto
  then have 2: "replace_runs (\<lambda>c. c = NEWLINE) NEWLINE x = x"
    by (rule replace_runs_absent)
  from assms have 3: "replace_special x = x"
    by (simp add: replace_special_allowed all_allowed_def)
  from assms have 4: "fix_spacing x = x"
    by (simp add: fix_spacing_plain)
  have 5: "trim x = x"
  proof (rule trim_id, cases "x = []")
    case True
    then show "x = [] \<or> \<not> is_space (hd x) \<and> \<not> is_space (last x)" by simp
  next
    case False
    then have "hd x \<in> set x" "last x \<in> set x" by simp_all
    with assms show "x = [] \<or> \<not> is_space (hd x) \<and> \<not> is_space (last x)" by blast
  qed
  from 1 2 3 4 5 show ?thesis by (simp add: cleanAndProcessText_def)
qed

lemma plain_a:
  "\<not> is_space (of_char CHR ''a'')" "\<not> is_sentence_end (of_char CHR ''a'')"
  "is_allowed (of_char CHR ''a'')"
  by (simp_all add: is_space_def is_sentence_end_def is_allowed_def is_word_def js_def)

lemma clean_replicate_a:
  "cleanAndProcessText (replicate n (of_char CHR ''a'')) = replicate n (of_char CHR ''a'')"
  by (rule clean_plain) (use plain_a in simp)

lemma trim_replicate_a: "trim (replicate n (of_char CHR ''a'')) = replicate n (of_char CHR ''a'')"
proof (rule trim_id, cases n)
  case 0
  then show "replicate n (of_char CHR ''a'' :: jschar) = [] \<or>
    \<not> is_space (hd (replicate n (of_char CHR ''a''))) \<and>
    \<not> is_space (last (replicate n (of_char CHR ''a'')))" by simp
next
  case (Suc m)
  then show "replicate n (of_char CHR ''a'' :: jschar) = [] \<or>
    \<not> is_space (hd (replicate n (of_char CHR ''a''))) \<and>
    \<not> is_space (last (replicate n (of_char CHR ''a'')))"
    using plain_a(1) by (simp del: replicate_Suc)
qed

lemma trim_trim: "trim (trim s) = trim s"
  by (rule trim_id) (rule trim_ends)

lemma parse_one_page:
  assumes "t \<noteq> []"
  shows "settled (parse_run [page_item 1, text_item t, ParseEnd]) = Some (Inr (trim t))"
    "totalPages (parse_run [page_item 1, text_item t, ParseEnd]) = 1"
  using assms
  by (simp_all add: parse_run_def parse_init_def on_event_def page_item_def text_item_def
      add_text_def settle_def maxPages_def Let_def trim_snoc_space is_space_SPACE)

lemma cache_hit:
  assumes "file_type f = js ''application/pdf''"
    "\<not> length (file_bytes f) > 10 * 1024 * 1024" "\<not> length (file_bytes f) < 100"
    "findByFilename db (file_name f) = Some d" "file_size d = length (file_bytes f)"
  shows "POST env db fs (Some f) =
     \<lparr>resp = Some (cached_response d), db_after = db, fs_after = fs, calls = []\<rparr>"
  using assms by (simp add: POST_def)

lemma cached_fields:
  "map_of (body (cached_response d)) ''text'' = Some (JsonString (extracted_text d))"
  "map_of (body (cached_response d)) ''originalLength'' =
     Some (JsonNumber (int (length (extracted_text d))))"
  "map_of (body (cached_response d)) ''extractedLength'' =
     Some (JsonNumber (int (length (extracted_text d))))"
  "map_of (body (cached_response d)) ''cached'' = Some (JsonBool True)"
  "map_of (body (cached_response d)) ''wasTruncated'' = None"
  by (simp_all add: cached_response_def)

lemma error_json_cached [simp]: "map_of (body (error_json code msg)) ''cached'' = None"
  by (simp add: error_json_def)

lemma error_response_cached [simp]: "map_of (body (error_response e)) ''cached'' = None"
  by (cases e) (simp add: error_response_def)

lemma store_and_respond_cached:
  "resp (store_and_respond db fs f pages log t) = Some r \<Longrightarrow>
   map_of (body r) ''cached'' = Some (JsonBool False)"
  by (auto simp: store_and_respond_def Let_def split: prod.splits)

lemma extract_fresh_not_cached:
  "resp (extract_fresh env db fs f) = Some r \<Longrightarrow>
   map_of (body r) ''cached'' \<noteq> Some (JsonBool True)"
  by (auto simp: extract_fresh_def Let_def
      split: if_splits option.splits sum.splits prod.splits
      dest: store_and_respond_cached)

lemma findByFilename_member:
  "findByFilename db name = Some d \<Longrightarrow> d \<in> set (documents db) \<and> doc_filename d = name"
  by (auto simp: findByFilename_def find_Some_iff)

lemma cached_only_from_store:
  assumes "resp (POST env db fs request) = Some r"
    "map_of (body r) ''cached'' = Some (JsonBool True)"
  shows "\<exists>f d. request = Some f \<and> findByFilename db (file_name f) = Some d \<and>
           file_size d = length (file_bytes f) \<and> r = cached_response d \<and>
           calls (POST env db fs request) = []"
proof (cases request)
  case None
  with assms show ?thesis by (auto simp: POST_def)
next
  case (Some f)
  show ?thesis
  proof (cases "findByFilename db (file_name f)")
    case None
    with assms Some show ?thesis
      using extract_fresh_not_cached [of env db fs f r]
      by (auto simp: POST_def split: if_splits)
  next
    case (Some d)
    with assms \<open>request = Some f\<close> show ?thesis
      using extract_fresh_not_cached [of env db fs f r]
      by (auto simp: POST_def split: if_splits)
  qed
qed

lemma sample_upload_facts:
  "file_name (sample_upload n) = js ''a.pdf''"
  "file_type (sample_upload n) = js ''application/pdf''"
  "length (file_bytes (sample_upload n)) = 4 + n"
  "take 4 (file_bytes (sample_upload n)) = PDF_HEADER"
  by (simp_all add: sample_upload_def PDF_HEADER_def)

lemma POST_sample_fresh:
  assumes n: "96 \<le> n" "n \<le> 1000" and t: "t \<noteq> []" "\<not> length (trim t) < OCR_THRESHOLD"
    and miss: "\<forall>d. findByFilename db (js ''a.pdf'') = Some d \<longrightarrow> file_size d \<noteq> 4 + n"
  shows "POST (sample_env t) db fs (Some (sample_upload n)) =
     store_and_respond db fs (sample_upload n) 1 [TextLayerCall (Some (Inr (trim t)))] (trim t)"
proof -
  have p: "parse_events (sample_env t) (file_bytes (sample_upload n)) =
      [page_item 1, text_item t, ParseEnd]"
    by (simp add: sample_env_def)
  have "POST (sample_env t) db fs (Some (sample_upload n)) =
      extract_fresh (sample_env t) db fs (sample_upload n)"
    using n miss by (auto simp: POST_def sample_upload_facts split: option.splits)
  also have "\<dots> = store_and_respond db fs (sample_upload n) 1
      [TextLayerCall (Some (Inr (trim t)))] (trim t)"
  proof -
    have ne: "file_bytes (sample_upload n) \<noteq> []"
      by (simp add: sample_upload_def PDF_HEADER_def)
    note one = parse_one_page [OF t(1), unfolded One_nat_def]
    show ?thesis
      using t ne by (simp add: extract_fresh_def Let_def sample_upload_facts p one trim_trim)
  qed
  finally show ?thesis .
qed

lemma sample_text_facts:
  "sample_text \<noteq> []" "trim sample_text = sample_text" "length sample_text = 60"
  "cleanAndProcessText sample_text = sample_text"
  "truncate_extracted sample_text = (sample_text, False)"
  "\<not> length sample_text < OCR_THRESHOLD"
proof -
  show "sample_text \<noteq> []" by (simp add: sample_text_def)
  show "trim sample_text = sample_text"
    unfolding sample_text_def by (rule trim_replicate_a)
  show len: "length sample_text = 60" by (simp add: sample_text_def)
  show "cleanAndProcessText sample_text = sample_text"
    unfolding sample_text_def by (rule clean_replicate_a)
  show "truncate_extracted sample_text = (sample_text, False)"
    by (simp add: truncate_extracted_def len MAX_CHARS_extract_def)
  show "\<not> length sample_text < OCR_THRESHOLD"
    by (simp add: len OCR_THRESHOLD_def)
qed

lemma store_sample:
  "store_and_respond db fs (sample_upload n) 1 log sample_text =
     \<lparr>resp = Some
        \<lparr>status = 200,
         body =
           [(''text'', JsonString sample_text), (''pages'', JsonNumber 1),
            (''extractedPages'', JsonNumber 1), (''originalLength'', JsonNumber 60),
            (''extractedLength'', JsonNumber 60), (''wasTruncated'', JsonBool False),
            (''filename'', JsonString (js ''a.pdf'')),
            (''documentId'', JsonNumber (int (last_rowid db + 1))),
            (''cached'', JsonBool False)]\<rparr>,
      db_after =
        \<lparr>documents = documents db @
           [\<lparr>doc_id = last_rowid db + 1, doc_filename = js ''a.pdf'',
             original_filename = js ''a.pdf'', file_size = 4 + n,
             extracted_text = sample_text, page_count = 1, extracted_pages = 1\<rparr>],
         last_rowid = last_rowid db + 1\<rparr>,
      fs_after = fs, calls = log\<rparr>"
  by (simp add: store_and_respond_def Let_def sample_text_facts sample_upload_facts
      insert_document_def)

lemma POST_sample_text:
  assumes "96 \<le> n" "n \<le> 1000"
    and "\<forall>d. findByFilename db (js ''a.pdf'') = Some d \<longrightarrow> file_size d \<noteq> 4 + n"
  shows "POST (sample_env sample_text) db fs (Some (sample_upload n)) =
     store_and_respond db fs (sample_upload n) 1 [TextLayerCall (Some (Inr sample_text))]
       sample_text"
  using POST_sample_fresh [OF assms(1,2) sample_text_facts(1) _ assms(3), of fs]
    sample_text_facts by simp








lemma short_text_facts:
  "js ''x'' \<noteq> []" "trim (js ''x'') = js ''x''" "length (trim (js ''x'')) < OCR_THRESHOLD"
  by (simp_all add: js_def trim_def is_space_def OCR_THRESHOLD_def)

lemma calls_short_upload:
  "calls (POST (sample_env (js ''x'')) empty_db {} (Some (sample_upload 96))) =
     [TextLayerCall (Some (Inr (js ''x''))),
      OcrCall (fst (extractTextWithOCR sample_ocr_env {} (js ''a.pdf'')))]"
proof -
  have p: "parse_events (sample_env (js ''x'')) (file_bytes (sample_upload 96)) =
      [page_item 1, text_item (js ''x''), ParseEnd]"
    by (simp add: sample_env_def)
  have "POST (sample_env (js ''x'')) empty_db {} (Some (sample_upload 96)) =
      extract_fresh (sample_env (js ''x'')) empty_db {} (sample_upload 96)"
    by (simp add: POST_def sample_upload_facts findByFilename_def empty_db_def)
  moreover have "ocr (sample_env (js ''x'')) = sample_ocr_env"
    by (simp add: sample_env_def)
  ultimately show ?thesis
    using parse_one_page(1) [OF short_text_facts(1)] short_text_facts
    by (simp add: calls_extract_fresh sample_upload_facts p)
qed

text \<open>
  Claim C4. In every run of the endpoint, when the text-layer extraction returns a
  text \<open>t\<close>, the OCR fallback is called if and only if the trimmed \<open>t\<close> is shorter than
  50 code units; and the OCR fallback is never called in a run in which the text-layer
  extraction returned no text.
\<close>

theorem ocr_threshold:
  "(TextLayerCall (Some (Inr t)) \<in> set (calls (POST env db fs request)) \<longrightarrow>
      ((\<exists>r. OcrCall r \<in> set (calls (POST env db fs request))) \<longleftrightarrow>
       length (trim t) < OCR_THRESHOLD)) \<and>
   ((\<exists>r. OcrCall r \<in> set (calls (POST env db fs request))) \<longrightarrow>
      (\<exists>t. TextLayerCall (Some (Inr t)) \<in> set (calls (POST env db fs request))))"
proof -
  from calls_POST [of env db fs request] show ?thesis
  proof
    assume "calls (POST env db fs request) = []"
    then show ?thesis by simp
  next
    assume "\<exists>file. request = Some file \<and>
      calls (POST env db fs request) = calls (extract_fresh env db fs file)"
    then obtain f where "calls (POST env db fs request) = calls (extract_fresh env db fs f)"
      by blast
    then show ?thesis using ocr_iff_extract_fresh [of t env db fs f] by simp
  qed
qed

theorem ocr_threshold_witness:
  "TextLayerCall (Some (Inr (js ''x''))) \<in>
     set (calls (POST (sample_env (js ''x'')) empty_db {} (Some (sample_upload 96)))) \<and>
   length (trim (js ''x'')) < OCR_THRESHOLD \<and>
   (\<exists>r. OcrCall r \<in>
     set (calls (POST (sample_env (js ''x'')) empty_db {} (Some (sample_upload 96))))) \<and>
   TextLayerCall (Some (Inr sample_text)) \<in>
     set (calls (POST (sample_env sample_text) empty_db {} (Some (sample_upload 96)))) \<and>
   \<not> length (trim sample_text) < OCR_THRESHOLD \<and>
   \<not> (\<exists>r. OcrCall r \<in>
     set (calls (POST (sample_env sample_text) empty_db {} (Some (sample_upload 96)))))"
proof -
  let ?short = "POST (sample_env (js ''x'')) empty_db {} (Some (sample_upload 96))"
  let ?long = "POST (sample_env sample_text) empty_db {} (Some (sample_upload 96))"
  have s: "TextLayerCall (Some (Inr (js ''x''))) \<in> set (calls ?short)"
    by (simp add: calls_short_upload)
  have "POST (sample_env sample_text) empty_db {} (Some (sample_upload 96)) =
      store_and_respond empty_db {} (sample_upload 96) 1 [TextLayerCall (Some (Inr sample_text))]
        sample_text"
    by (rule POST_sample_text) (simp_all add: findByFilename_def empty_db_def)
  then have l: "TextLayerCall (Some (Inr sample_text)) \<in> set (calls ?long)"
    by simp
  have n: "\<not> length (trim sample_text) < OCR_THRESHOLD"
    unfolding sample_text_facts(2) by (rule sample_text_facts(6))
  from ocr_threshold [of "js ''x''" "sample_env (js ''x'')" empty_db "{}"
      "Some (sample_upload 96)"] s short_text_facts(3)
  have 1: "\<exists>r. OcrCall r \<in> set (calls ?short)" by blast
  from ocr_threshold [of sample_text "sample_env sample_text" empty_db "{}"
      "Some (sample_upload 96)"] l n
  have 2: "\<not> (\<exists>r. OcrCall r \<in> set (calls ?long))" by blast
  from s short_text_facts(3) 1 l n 2 show ?thesis by blast
qed



text \<open>
  Claim C9. A response of the endpoint that reports \<open>cached: true\<close> carries the text
  of a stored document, its \<open>originalLength\<close> and \<open>extractedLength\<close> are both the
  length of that stored text, and it has no field \<open>wasTruncated\<close>.
\<close>

theorem cached_response_lengths:
  assumes "resp (POST env db fs request) = Some r"
    and "map_of (body r) ''cached'' = Some (JsonBool True)"
  shows "\<exists>d. d \<in> set (documents db) \<and>
           map_of (body r) ''text'' = Some (JsonString (extracted_text d)) \<and>
           map_of (body r) ''originalLength'' =
             Some (JsonNumber (int (length (extracted_text d)))) \<and>
           map_of (body r) ''extractedLength'' = map_of (body r) ''originalLength'' \<and>
           map_of (body r) ''wasTruncated'' = None"
proof -
  from cached_only_from_store [OF assms] obtain f d where
    "request = Some f"
    and d: "findByFilename db (file_name f) = Some d" and r: "r = cached_response d"
    by blast
  from d have "d \<in> set (documents db)" using findByFilename_member by blast
  with r show ?thesis by (auto simp: cached_fields)
qed

theorem cached_response_lengths_witness:
  "resp (POST (sample_env sample_text) \<lparr>documents = [sample_row], last_rowid = 1\<rparr> {}
     (Some (sample_upload 96))) = Some (cached_response sample_row) \<and>
   map_of (body (cached_response sample_row)) ''cached'' = Some (JsonBool True) \<and>
   (\<exists>d. d \<in> set (documents \<lparr>documents = [sample_row], last_rowid = 1\<rparr>) \<and>
     map_of (body (cached_response sample_row)) ''text'' = Some (JsonString (extracted_text d)) \<and>
     map_of (body (cached_response sample_row)) ''originalLength'' =
       Some (JsonNumber (int (length (extracted_text d)))) \<and>
     map_of (body (cached_response sample_row)) ''extractedLength'' =
       map_of (body (cached_response sample_row)) ''originalLength'' \<and>
     map_of (body (cached_response sample_row)) ''wasTruncated'' = None)"
proof -
  let ?db = "\<lparr>documents = [sample_row], last_rowid = 1\<rparr>"
  have "findByFilename ?db (file_name (sample_upload 96)) = Some sample_row"
    by (simp add: findByFilename_def sample_row_def sample_upload_facts)
  moreover have "file_size sample_row = length (file_bytes (sample_upload 96))"
    by (simp add: sample_row_def sample_upload_facts)
  ultimately have "POST (sample_env sample_text) ?db {} (Some (sample_upload 96)) =
      \<lparr>resp = Some (cached_response sample_row), db_after = ?db, fs_after = {}, calls = []\<rparr>"
    by (intro cache_hit) (simp_all add: sample_upload_facts)
  then have r: "resp (POST (sample_env sample_text) ?db {} (Some (sample_upload 96))) =
      Some (cached_response sample_row)" by simp
  have c: "map_of (body (cached_response sample_row)) ''cached'' = Some (JsonBool True)"
    by (rule cached_fields)
  from cached_response_lengths [OF r c] r c show ?thesis by blast
qed

section \<open>The document cache\<close>

lemma store_and_respond_row:
  "\<exists>row r. store_and_respond db fs f pages log t =
      \<lparr>resp = Some r, db_after = \<lparr>documents = documents db @ [row],
         last_rowid = last_rowid db + 1\<rparr>, fs_after = fs, calls = log\<rparr> \<and>
      doc_filename row = file_name f \<and> file_size row = length (file_bytes f) \<and>
      map_of (body r) ''text'' = Some (JsonString (extracted_text row)) \<and>
      map_of (body r) ''cached'' = Some (JsonBool False)"
  by (simp add: store_and_respond_def Let_def insert_document_def split: prod.splits)

lemma fresh_response_from_store:
  assumes "resp (extract_fresh env db fs f) = Some r"
    "map_of (body r) ''cached'' = Some (JsonBool False)"
  shows "\<exists>fs' pages log t. extract_fresh env db fs f = store_and_respond db fs' f pages log t"
  using assms
  by (auto simp: extract_fresh_def Let_def
      split: if_splits option.splits sum.splits prod.splits)

lemma find_append_none: "find P xs = None \<Longrightarrow> find P (xs @ ys) = find P ys"
  by (induction xs) (auto split: if_splits)

lemma findByFilename_appended:
  assumes "findByFilename db name = None" "doc_filename row = name"
  shows "findByFilename \<lparr>documents = documents db @ [row], last_rowid = k\<rparr> name = Some row"
  using assms by (simp add: findByFilename_def find_append_none)

lemma repeated_upload_cached:
  assumes none: "findByFilename db (file_name f) = None"
    and first: "resp (POST env db fs (Some f)) = Some r"
      "map_of (body r) ''cached'' = Some (JsonBool False)"
  shows "\<exists>r2. POST env2 (db_after (POST env db fs (Some f))) fs2 (Some f) =
           \<lparr>resp = Some r2, db_after = db_after (POST env db fs (Some f)),
            fs_after = fs2, calls = []\<rparr> \<and>
         map_of (body r2) ''cached'' = Some (JsonBool True) \<and>
         map_of (body r2) ''text'' = map_of (body r) ''text''"
proof -
  have valid: "file_type f = js ''application/pdf''"
    "\<not> length (file_bytes f) > 10 * 1024 * 1024" "\<not> length (file_bytes f) < 100"
    using first by (auto simp: POST_def split: if_splits)
  with none have eq: "POST env db fs (Some f) = extract_fresh env db fs f"
    by (simp add: POST_def)
  with first obtain fs' pages log t where
    st: "extract_fresh env db fs f = store_and_respond db fs' f pages log t"
    using fresh_response_from_store by metis
  from store_and_respond_row [of db fs' f pages log t] obtain row r' where
    s: "store_and_respond db fs' f pages log t =
      \<lparr>resp = Some r', db_after = \<lparr>documents = documents db @ [row],
         last_rowid = last_rowid db + 1\<rparr>, fs_after = fs', calls = log\<rparr>"
    and row: "doc_filename row = file_name f" "file_size row = length (file_bytes f)"
    and tx: "map_of (body r') ''text'' = Some (JsonString (extracted_text row))"
    by blast
  from eq st s first(1) have r: "r' = r" by simp
  let ?db1 = "\<lparr>documents = documents db @ [row], last_rowid = last_rowid db + 1\<rparr>"
  from eq st s have db1: "db_after (POST env db fs (Some f)) = ?db1" by simp
  have "findByFilename ?db1 (file_name f) = Some row"
    using none row(1) by (rule findByFilename_appended)
  with valid row(2) have "POST env2 ?db1 fs2 (Some f) =
      \<lparr>resp = Some (cached_response row), db_after = ?db1, fs_after = fs2, calls = []\<rparr>"
    by (intro cache_hit)
  with db1 tx r show ?thesis
    by (simp add: cached_fields)
qed

text \<open>
  Claim C3 says that the second of two uploads with the same name and size is answered
  from the cache. That holds when no older document has the name
  (\<open>repeated_upload_cached\<close>). It fails when an older document has the same name and
  another size: \<open>findByFilename\<close> selects by name only and \<open>.get\<close> yields the oldest
  such row, so the size test is made against that row and the row stored for this name
  and size is never looked at. Below, \<open>a.pdf\<close> is uploaded with 100 bytes, then with 101
  bytes, then with 101 bytes again; the third upload is extracted anew and stored a third
  time.
\<close>

theorem same_name_other_size_shadows_cache:
  "(let env = sample_env sample_text;
        o1 = POST env empty_db {} (Some (sample_upload 96));
        o2 = POST env (db_after o1) (fs_after o1) (Some (sample_upload 97));
        o3 = POST env (db_after o2) (fs_after o2) (Some (sample_upload 97))
    in map (\<lambda>d. (doc_filename d, file_size d, extracted_text d)) (documents (db_after o2)) =
         [(js ''a.pdf'', 100, sample_text), (js ''a.pdf'', 101, sample_text)] \<and>
       file_name (sample_upload 97) = js ''a.pdf'' \<and>
       length (file_bytes (sample_upload 97)) = 101 \<and>
       map_option (\<lambda>r. map_of (body r) ''cached'') (resp o3) = Some (Some (JsonBool False)) \<and>
       calls o3 = [TextLayerCall (Some (Inr sample_text))] \<and>
       length (documents (db_after o3)) = 3)"
proof -
  let ?env = "sample_env sample_text"
  have 1: "POST ?env empty_db {} (Some (sample_upload 96)) =
      store_and_respond empty_db {} (sample_upload 96) 1 [TextLayerCall (Some (Inr sample_text))]
        sample_text"
    by (rule POST_sample_text) (simp_all add: findByFilename_def empty_db_def)
  let ?db1 = "db_after (POST ?env empty_db {} (Some (sample_upload 96)))"
  have db1: "?db1 = \<lparr>documents =
      [\<lparr>doc_id = 1, doc_filename = js ''a.pdf'', original_filename = js ''a.pdf'',
        file_size = 100, extracted_text = sample_text, page_count = 1, extracted_pages = 1\<rparr>],
      last_rowid = 1\<rparr>"
    unfolding 1 store_sample by (simp add: empty_db_def)
  have fs1: "fs_after (POST ?env empty_db {} (Some (sample_upload 96))) = {}"
    unfolding 1 store_sample by simp
  have 2: "POST ?env ?db1 {} (Some (sample_upload 97)) =
      store_and_respond ?db1 {} (sample_upload 97) 1 [TextLayerCall (Some (Inr sample_text))]
        sample_text"
    by (rule POST_sample_text) (simp_all add: db1 findByFilename_def)
  let ?db2 = "db_after (POST ?env ?db1 {} (Some (sample_upload 97)))"
  have db2: "?db2 = \<lparr>documents =
      [\<lparr>doc_id = 1, doc_filename = js ''a.pdf'', original_filename = js ''a.pdf'',
        file_size = 100, extracted_text = sample_text, page_count = 1, extracted_pages = 1\<rparr>,
       \<lparr>doc_id = 2, doc_filename = js ''a.pdf'', original_filename = js ''a.pdf'',
        file_size = 101, extracted_text = sample_text, page_count = 1, extracted_pages = 1\<rparr>],
      last_rowid = 2\<rparr>"
    unfolding 2 store_sample by (simp add: db1)
  have fs2: "fs_after (POST ?env ?db1 {} (Some (sample_upload 97))) = {}"
    unfolding 2 store_sample by simp
  have 3: "POST ?env ?db2 {} (Some (sample_upload 97)) =
      store_and_respond ?db2 {} (sample_upload 97) 1 [TextLayerCall (Some (Inr sample_text))]
        sample_text"
    by (rule POST_sample_text) (simp_all add: db2 findByFilename_def)
  have r3: "map_option (\<lambda>r. map_of (body r) ''cached'')
      (resp (POST ?env ?db2 {} (Some (sample_upload 97)))) = Some (Some (JsonBool False))"
    unfolding 3 store_sample by simp
  have c3: "calls (POST ?env ?db2 {} (Some (sample_upload 97))) =
      [TextLayerCall (Some (Inr sample_text))]"
    unfolding 3 by simp
  have n3: "length (documents (db_after (POST ?env ?db2 {} (Some (sample_upload 97))))) = 3"
    unfolding 3 store_sample by (simp add: db2)
  have m2: "map (\<lambda>d. (doc_filename d, file_size d, extracted_text d)) (documents ?db2) =
      [(js ''a.pdf'', 100, sample_text), (js ''a.pdf'', 101, sample_text)]"
    by (simp add: db2)
  show ?thesis
    unfolding Let_def fs1 fs2
    using m2 r3 c3 n3 by (simp add: sample_upload_facts)
qed


end
